theory Spec2Isabelle
  imports Complex_Main
begin

section \<open>Values of the host language and of the tensor library\<close>

text \<open>
  The development embeds \<^verbatim>\<open>theodon-tabular/src/models.py\<close>: the two feed-forward
  estimators and the class \<^verbatim>\<open>BootstrappedEstimator\<close>. Exceptions are values: every
  operation that can raise returns a sum whose left injection is the exception.
\<close>

datatype error = IndexError | AttributeError | AssertionError | RuntimeError

text \<open>
  Tensor entries are exact reals extended by the IEEE value NaN. Rounding and overflow are
  not modelled; NaN is kept because the library produces it from \<open>0 / 0\<close>, which the
  variance of a single sample reaches. Every operation propagates NaN.
\<close>

datatype scalar = Fin real | NaN

fun fadd :: "scalar \<Rightarrow> scalar \<Rightarrow> scalar" where
  "fadd (Fin a) (Fin b) = Fin (a + b)"
| "fadd _ _ = NaN"

fun fsub :: "scalar \<Rightarrow> scalar \<Rightarrow> scalar" where
  "fsub (Fin a) (Fin b) = Fin (a - b)"
| "fsub _ _ = NaN"

fun fmul :: "scalar \<Rightarrow> scalar \<Rightarrow> scalar" where
  "fmul (Fin a) (Fin b) = Fin (a * b)"
| "fmul _ _ = NaN"

fun frelu :: "scalar \<Rightarrow> scalar" where
  "frelu (Fin a) = Fin (max 0 a)"
| "frelu NaN = NaN"

definition fsum :: "scalar list \<Rightarrow> scalar" where
  "fsum xs = foldr fadd xs (Fin 0)"

text \<open>
  Division of an accumulated sum by the number of summands that entered it. The library
  divides by \<open>max 0 n\<close>; with no summand the sum is \<open>0\<close> and the quotient \<open>0 / 0\<close> is NaN.
\<close>

fun div_count :: "scalar \<Rightarrow> nat \<Rightarrow> scalar" where
  "div_count (Fin a) n = (if n = 0 then NaN else Fin (a / real n))"
| "div_count NaN n = NaN"

text \<open>A tensor is its shape and its entries in row-major order, as the library stores it.\<close>

record tensor =
  shape :: "nat list"
  elems :: "scalar list"

definition full_like :: "tensor \<Rightarrow> real \<Rightarrow> tensor" where
  "full_like t v = \<lparr>shape = shape t, elems = map (\<lambda>_. Fin v) (elems t)\<rparr>"

text \<open>
  Addition of two tensors. The operands met here are the outputs of two copies of one
  architecture on one input, so broadcasting between different shapes is not modelled: a
  shape mismatch is the library's \<^verbatim>\<open>RuntimeError\<close>.
\<close>

definition tadd :: "tensor \<Rightarrow> tensor \<Rightarrow> error + tensor" where
  "tadd a b =
     (if shape a = shape b
      then Inr \<lparr>shape = shape a, elems = map (\<lambda>(u, v). fadd u v) (zip (elems a) (elems b))\<rparr>
      else Inl RuntimeError)"

text \<open>\<^verbatim>\<open>torch.stack(ys, 0)\<close>: a new leading axis; an empty list or unequal shapes raise.\<close>

definition stack :: "tensor list \<Rightarrow> error + tensor" where
  "stack ts =
     (case ts of
        [] \<Rightarrow> Inl RuntimeError
      | t # _ \<Rightarrow>
          if list_all (\<lambda>u. shape u = shape t) ts
          then Inr \<lparr>shape = length ts # shape t, elems = concat (map elems ts)\<rparr>
          else Inl RuntimeError)"

text \<open>
  Reductions along axis \<open>0\<close>. A zero-dimensional tensor is reduced as one sample. The
  \<open>j\<close>-th result entry is computed from the entries \<open>j\<close>, \<open>j + n\<close>, \<open>j + 2 n\<close>, ... where
  \<open>n\<close> is the number of entries of one slice.
\<close>

definition lead :: "tensor \<Rightarrow> nat" where
  "lead t = (case shape t of [] \<Rightarrow> 1 | b # _ \<Rightarrow> b)"

definition rest :: "tensor \<Rightarrow> nat list" where
  "rest t = (case shape t of [] \<Rightarrow> [] | _ # s \<Rightarrow> s)"

definition column :: "tensor \<Rightarrow> nat \<Rightarrow> scalar list" where
  "column t j = map (\<lambda>i. elems t ! (i * prod_list (rest t) + j)) [0..<lead t]"

definition reduce0 :: "(scalar list \<Rightarrow> scalar) \<Rightarrow> tensor \<Rightarrow> tensor" where
  "reduce0 f t = \<lparr>shape = rest t, elems = map (\<lambda>j. f (column t j)) [0..<prod_list (rest t)]\<rparr>"

definition mean_of :: "scalar list \<Rightarrow> scalar" where
  "mean_of xs = div_count (fsum xs) (length xs)"

text \<open>
  \<^verbatim>\<open>Tensor.var(dim, unbiased=True)\<close>: the sum of squared deviations from the mean,
  divided by the number of samples less the correction (1 when unbiased), not below 0.
\<close>

definition var_of :: "bool \<Rightarrow> scalar list \<Rightarrow> scalar" where
  "var_of unbiased xs =
     (let m = mean_of xs;
          ss = fsum (map (\<lambda>x. fmul (fsub x m) (fsub x m)) xs)
      in div_count ss (length xs - (if unbiased then 1 else 0)))"

definition mean0 :: "tensor \<Rightarrow> tensor" where
  "mean0 t = reduce0 mean_of t"

definition var0 :: "bool \<Rightarrow> tensor \<Rightarrow> tensor" where
  "var0 unbiased t = reduce0 (var_of unbiased) t"

text \<open>
  Indexing of a Python list by an integer: an index in \<open>[-n, 0)\<close> counts from the end,
  anything outside \<open>[-n, n)\<close> raises \<^verbatim>\<open>IndexError\<close>.
\<close>

definition getitem :: "'a list \<Rightarrow> int \<Rightarrow> error + 'a" where
  "getitem xs i =
     (if 0 \<le> i \<and> i < int (length xs) then Inr (xs ! nat i)
      else if - int (length xs) \<le> i \<and> i < 0 then Inr (xs ! nat (int (length xs) + i))
      else Inl IndexError)"

text \<open>
  \<^verbatim>\<open>t[i]\<close> on a tensor selects slice \<open>i\<close> of the leading axis, with the same treatment of
  negative indices; a zero-dimensional tensor cannot be indexed.
\<close>

definition select :: "tensor \<Rightarrow> int \<Rightarrow> error + tensor" where
  "select t i =
     (case shape t of
        [] \<Rightarrow> Inl IndexError
      | b # s \<Rightarrow>
          (case getitem [0..<b] i of
             Inl e \<Rightarrow> Inl e
           | Inr k \<Rightarrow> Inr \<lparr>shape = s, elems = take (prod_list s) (drop (k * prod_list s) (elems t))\<rparr>))"

section \<open>Parameters, the store and the random generator\<close>

text \<open>
  A parameter is an object with a \<^verbatim>\<open>data\<close> tensor and a \<^verbatim>\<open>requires_grad\<close> flag. The store
  maps addresses to parameter objects; \<open>fresh\<close> is the next unused address and \<open>objects\<close>
  counts the module objects created so far (a module's \<open>ident\<close> is its object identity).
\<close>

record parameter =
  data :: tensor
  requires_grad :: bool

record heap =
  cells :: "nat \<Rightarrow> parameter"
  fresh :: nat
  objects :: nat

definition set_data :: "heap \<Rightarrow> nat \<Rightarrow> tensor \<Rightarrow> heap" where
  "set_data h a t = h\<lparr>cells := (cells h)(a := (cells h a)\<lparr>data := t\<rparr>)\<rparr>"

definition set_requires_grad :: "heap \<Rightarrow> nat \<Rightarrow> bool \<Rightarrow> heap" where
  "set_requires_grad h a b = h\<lparr>cells := (cells h)(a := (cells h a)\<lparr>requires_grad := b\<rparr>)\<rparr>"

text \<open>
  The process-wide generator is the sequence of variates it is going to produce; every
  draw advances the position. \<open>normal_seq\<close> are the standard normal variates.
  \<open>linear_init_seq k\<close> are the variates of the distribution from which the library's default
  initialisation of a linear layer with \<open>k\<close> input features draws (uniform on
  \<open>[-1 / sqrt k, 1 / sqrt k]\<close>).
\<close>

record rng =
  normal_seq :: "nat \<Rightarrow> real"
  linear_init_seq :: "nat \<Rightarrow> nat \<Rightarrow> real"
  pos :: nat

definition normal_fill :: "tensor \<Rightarrow> real \<Rightarrow> real \<Rightarrow> rng \<Rightarrow> tensor \<times> rng" where
  "normal_fill t mu sigma g =
     (let n = length (elems t)
      in (\<lparr>shape = shape t, elems = map (\<lambda>i. Fin (mu + sigma * normal_seq g (pos g + i))) [0..<n]\<rparr>,
          g\<lparr>pos := pos g + n\<rparr>))"

definition default_fill :: "tensor \<Rightarrow> nat \<Rightarrow> rng \<Rightarrow> tensor \<times> rng" where
  "default_fill t k g =
     (let n = length (elems t)
      in (\<lparr>shape = shape t, elems = map (\<lambda>i. Fin (linear_init_seq g k (pos g + i))) [0..<n]\<rparr>,
          g\<lparr>pos := pos g + n\<rparr>))"

text \<open>\<^verbatim>\<open>torch.distributions.Normal(loc, scale)\<close> and its \<^verbatim>\<open>sample()\<close>.\<close>

record normal =
  loc :: tensor
  scale :: tensor

definition sample :: "normal \<Rightarrow> rng \<Rightarrow> tensor \<times> rng" where
  "sample d g =
     (let n = length (elems (loc d))
      in (\<lparr>shape = shape (loc d),
           elems = map (\<lambda>((l, s), i). fadd l (fmul s (Fin (normal_seq g (pos g + i)))))
                       (zip (zip (elems (loc d)) (elems (scale d))) [0..<n])\<rparr>,
          g\<lparr>pos := pos g + n\<rparr>))"

section \<open>Modules\<close>

text \<open>
  An \<^verbatim>\<open>nn.Module\<close> is represented by its object identity, its registered parameters under
  their attribute paths (a parameter registered on the module itself has an undotted
  name, one of a submodule \<^verbatim>\<open>fc1\<close> is \<^verbatim>\<open>fc1.weight\<close>), and the two methods of its class
  that the ensemble uses. \<open>forward_fn\<close> receives the current \<^verbatim>\<open>data\<close> of the parameters, in
  the order of \<open>params\<close>; \<open>reset_fn\<close> maps them to their new values.
\<close>

record 'x module =
  ident :: nat
  params :: "(string \<times> nat) list"
  forward_fn :: "tensor list \<Rightarrow> 'x \<Rightarrow> error + tensor"
  reset_fn :: "tensor list \<Rightarrow> rng \<Rightarrow> tensor list \<times> rng"

definition addrs :: "'x module \<Rightarrow> nat list" where
  "addrs m = map snd (params m)"

text \<open>\<^verbatim>\<open>model.parameters()\<close> yields every parameter object once, in registration order.\<close>

definition module_parameters :: "'x module \<Rightarrow> nat list" where
  "module_parameters m = rev (remdups (rev (addrs m)))"

text \<open>\<^verbatim>\<open>model.weight\<close>: the parameter registered on the module under that name.\<close>

definition getattr :: "'x module \<Rightarrow> string \<Rightarrow> error + nat" where
  "getattr m name = (case map_of (params m) name of None \<Rightarrow> Inl AttributeError | Some a \<Rightarrow> Inr a)"

definition call :: "'x module \<Rightarrow> 'x \<Rightarrow> heap \<Rightarrow> error + tensor" where
  "call m x h = forward_fn m (map (\<lambda>a. data (cells h a)) (addrs m)) x"

definition reset_parameters :: "'x module \<Rightarrow> heap \<Rightarrow> rng \<Rightarrow> heap \<times> rng" where
  "reset_parameters m h g =
     (let (ts, g') = reset_fn m (map (\<lambda>a. data (cells h a)) (addrs m)) g
      in (fold (\<lambda>(a, t) h'. set_data h' a t) (zip (addrs m) ts) h, g'))"

text \<open>
  \<^verbatim>\<open>deepcopy(model)\<close>: a new module object whose parameters are new objects holding copies
  of the originals; parameters shared inside the original stay shared inside the copy.
\<close>

fun index_of :: "'a list \<Rightarrow> 'a \<Rightarrow> nat" where
  "index_of [] a = 0"
| "index_of (x # xs) a = (if x = a then 0 else Suc (index_of xs a))"

definition deepcopy :: "'x module \<Rightarrow> heap \<Rightarrow> 'x module \<times> heap" where
  "deepcopy m h =
     (let olds = module_parameters m;
          base = fresh h
      in (m\<lparr>ident := objects h,
            params := map (\<lambda>(name, a). (name, base + index_of olds a)) (params m)\<rparr>,
          h\<lparr>cells := (\<lambda>a. if base \<le> a \<and> a < base + length olds
                           then cells h (olds ! (a - base)) else cells h a),
            fresh := base + length olds,
            objects := Suc (objects h)\<rparr>))"

section \<open>The estimators of \<^verbatim>\<open>models.py\<close>\<close>

text \<open>
  The estimators take a batch of byte-valued states: the input carries its element type,
  which \<^verbatim>\<open>forward\<close> asserts to be \<^verbatim>\<open>uint8\<close>.
\<close>

datatype dtype = UInt8 | Float32

record input =
  dt :: dtype
  val :: tensor

text \<open>\<^verbatim>\<open>x.view(x.shape[0], -1)\<close>: all axes but the first are merged.\<close>

definition view_rows :: "tensor \<Rightarrow> error + tensor" where
  "view_rows t =
     (case shape t of
        [] \<Rightarrow> Inl IndexError
      | b # s \<Rightarrow> if b = 0 then Inl RuntimeError else Inr \<lparr>shape = [b, prod_list s], elems = elems t\<rparr>)"

text \<open>\<^verbatim>\<open>nn.Linear.forward\<close> on a two-dimensional input: \<open>x W\<^sup>T + b\<close>.\<close>

definition linear :: "tensor \<Rightarrow> tensor \<Rightarrow> tensor \<Rightarrow> error + tensor" where
  "linear x w b =
     (case (shape x, shape w, shape b) of
        ([n, k], [m, k'], [m']) \<Rightarrow>
          if k = k' \<and> m = m'
          then Inr \<lparr>shape = [n, m],
                    elems = concat (map (\<lambda>i. map (\<lambda>j.
                      fadd (fsum (map (\<lambda>l. fmul (elems x ! (i * k + l)) (elems w ! (j * k + l))) [0..<k]))
                           (elems b ! j)) [0..<m]) [0..<n])\<rparr>
          else Inl RuntimeError
      | _ \<Rightarrow> Inl RuntimeError)"

definition relu :: "tensor \<Rightarrow> tensor" where
  "relu t = \<lparr>shape = shape t, elems = map frelu (elems t)\<rparr>"

text \<open>
  \<^verbatim>\<open>nn.Linear.reset_parameters\<close>, the library's default initialisation: weight and bias
  are drawn for the layer's number of input features, the second axis of the weight.
\<close>

definition fan_in :: "tensor \<Rightarrow> nat" where
  "fan_in w = (case shape w of [m, k] \<Rightarrow> k | _ \<Rightarrow> 0)"

definition linear_reset :: "tensor \<Rightarrow> tensor \<Rightarrow> rng \<Rightarrow> (tensor \<times> tensor) \<times> rng" where
  "linear_reset w b g =
     (let (w', g1) = default_fill w (fan_in w) g;
          (b', g2) = default_fill b (fan_in w) g1
      in ((w', b'), g2))"

definition NonLinearEstimator_forward :: "tensor list \<Rightarrow> input \<Rightarrow> error + tensor" where
  "NonLinearEstimator_forward ps x =
     (case ps of
        [w1, b1, w2, b2] \<Rightarrow>
          if dt x \<noteq> UInt8 then Inl AssertionError
          else (case view_rows (val x) of
                  Inl e \<Rightarrow> Inl e
                | Inr v \<Rightarrow> (case linear v w1 b1 of
                              Inl e \<Rightarrow> Inl e
                            | Inr hid \<Rightarrow> linear (relu hid) w2 b2))
      | _ \<Rightarrow> Inl RuntimeError)"

definition NonLinearEstimator_reset :: "tensor list \<Rightarrow> rng \<Rightarrow> tensor list \<times> rng" where
  "NonLinearEstimator_reset ps g =
     (case ps of
        [w1, b1, w2, b2] \<Rightarrow>
          (let ((w1', b1'), g1) = linear_reset w1 b1 g;
               ((w2', b2'), g2) = linear_reset w2 b2 g1
           in ([w1', b1', w2', b2'], g2))
      | _ \<Rightarrow> (ps, g))"

definition LinearEstimator_forward :: "tensor list \<Rightarrow> input \<Rightarrow> error + tensor" where
  "LinearEstimator_forward ps x =
     (case ps of
        [w, b] \<Rightarrow>
          if dt x \<noteq> UInt8 then Inl AssertionError
          else (case view_rows (val x) of Inl e \<Rightarrow> Inl e | Inr v \<Rightarrow> linear v w b)
      | _ \<Rightarrow> Inl RuntimeError)"

definition LinearEstimator_reset :: "tensor list \<Rightarrow> rng \<Rightarrow> tensor list \<times> rng" where
  "LinearEstimator_reset ps g =
     (case ps of
        [w, b] \<Rightarrow>
          (let (w', g1) = normal_fill w 0 (1 / 10) g;
               (b', g2) = normal_fill b 0 (1 / 10) g1
           in ([w', b'], g2))
      | _ \<Rightarrow> (ps, g))"

text \<open>
  The constructors. A new parameter is allocated with \<^verbatim>\<open>requires_grad\<close> set; its storage
  is uninitialised in the library and is written by the initialisation before it is read
  (zeros stand for it). \<^verbatim>\<open>nn.Linear\<close> initialises itself when it is built, then the
  estimator's own \<^verbatim>\<open>reset_parameters\<close> runs.
\<close>

definition alloc :: "nat list \<Rightarrow> heap \<Rightarrow> nat \<times> heap" where
  "alloc s h =
     (fresh h,
      h\<lparr>cells := (cells h)(fresh h :=
           \<lparr>data = \<lparr>shape = s, elems = replicate (prod_list s) (Fin 0)\<rparr>, requires_grad = True\<rparr>),
        fresh := Suc (fresh h)\<rparr>)"

definition nn_Linear :: "nat \<Rightarrow> nat \<Rightarrow> heap \<Rightarrow> rng \<Rightarrow> (nat \<times> nat) \<times> heap \<times> rng" where
  "nn_Linear in_features out_features h g =
     (let (wa, h1) = alloc [out_features, in_features] h;
          (ba, h2) = alloc [out_features] h1;
          ((w, b), g1) = linear_reset (data (cells h2 wa)) (data (cells h2 ba)) g
      in ((wa, ba), set_data (set_data h2 wa w) ba b, g1))"

definition NonLinearEstimator :: "nat \<Rightarrow> nat \<Rightarrow> heap \<Rightarrow> rng \<Rightarrow> input module \<times> heap \<times> rng" where
  "NonLinearEstimator in_size out_size h g =
     (let hid_size = max 2 ((in_size + 1) div 2);
          ((w1, b1), h1, g1) = nn_Linear in_size hid_size h g;
          ((w2, b2), h2, g2) = nn_Linear hid_size out_size h1 g1;
          m = \<lparr>ident = objects h2,
               params = [(''fc1.weight'', w1), (''fc1.bias'', b1), (''fc2.weight'', w2), (''fc2.bias'', b2)],
               forward_fn = NonLinearEstimator_forward,
               reset_fn = NonLinearEstimator_reset\<rparr>;
          (h3, g3) = reset_parameters m (h2\<lparr>objects := Suc (objects h2)\<rparr>) g2
      in (m, h3, g3))"

definition LinearEstimator :: "nat \<Rightarrow> nat \<Rightarrow> heap \<Rightarrow> rng \<Rightarrow> input module \<times> heap \<times> rng" where
  "LinearEstimator in_size out_size h g =
     (let ((w, b), h1, g1) = nn_Linear in_size out_size h g;
          m = \<lparr>ident = objects h1,
               params = [(''linear.weight'', w), (''linear.bias'', b)],
               forward_fn = LinearEstimator_forward,
               reset_fn = LinearEstimator_reset\<rparr>;
          (h2, g2) = reset_parameters m (h1\<lparr>objects := Suc (objects h1)\<rparr>) g1
      in (m, h2, g2))"

text \<open>
  The library's linear layer is itself an estimator in the sense of the ensemble: it has
  \<^verbatim>\<open>forward\<close>, \<^verbatim>\<open>reset_parameters\<close> and a parameter registered under the name
  \<^verbatim>\<open>weight\<close>. It takes a two-dimensional float tensor.
\<close>

definition Linear_forward :: "tensor list \<Rightarrow> tensor \<Rightarrow> error + tensor" where
  "Linear_forward ps x = (case ps of [w, b] \<Rightarrow> linear x w b | _ \<Rightarrow> Inl RuntimeError)"

definition Linear_reset :: "tensor list \<Rightarrow> rng \<Rightarrow> tensor list \<times> rng" where
  "Linear_reset ps g =
     (case ps of
        [w, b] \<Rightarrow> (let ((w', b'), g1) = linear_reset w b g in ([w', b'], g1))
      | _ \<Rightarrow> (ps, g))"

definition Linear :: "nat \<Rightarrow> nat \<Rightarrow> heap \<Rightarrow> rng \<Rightarrow> tensor module \<times> heap \<times> rng" where
  "Linear in_features out_features h g =
     (let ((w, b), h1, g1) = nn_Linear in_features out_features h g
      in (\<lparr>ident = objects h1,
           params = [(''weight'', w), (''bias'', b)],
           forward_fn = Linear_forward,
           reset_fn = Linear_reset\<rparr>,
          h1\<lparr>objects := Suc (objects h1)\<rparr>, g1))"

section \<open>The bootstrapped ensemble\<close>

record 'x bootstrapped =
  ensemble :: "'x module list"
  bno :: int
  beta :: real
  prior_fns :: "'x module list"
  priors :: "normal list"

subsection \<open>Construction\<close>

text \<open>\<^verbatim>\<open>[deepcopy(proto_model) for _ in range(B)]\<close>\<close>

fun deepcopies :: "'x module \<Rightarrow> nat \<Rightarrow> heap \<Rightarrow> 'x module list \<times> heap" where
  "deepcopies m 0 h = ([], h)"
| "deepcopies m (Suc n) h =
     (let (c, h1) = deepcopy m h;
          (cs, h2) = deepcopies m n h1
      in (c # cs, h2))"

text \<open>\<^verbatim>\<open>for model in self.__ensemble: model.reset_parameters()\<close>\<close>

fun reset_each :: "'x module list \<Rightarrow> heap \<Rightarrow> rng \<Rightarrow> heap \<times> rng" where
  "reset_each [] h g = (h, g)"
| "reset_each (m # ms) h g = (let (h1, g1) = reset_parameters m h g in reset_each ms h1 g1)"

text \<open>\<^verbatim>\<open>[deepcopy(model) for model in self.__ensemble]\<close>\<close>

fun deepcopy_each :: "'x module list \<Rightarrow> heap \<Rightarrow> 'x module list \<times> heap" where
  "deepcopy_each [] h = ([], h)"
| "deepcopy_each (m # ms) h =
     (let (c, h1) = deepcopy m h;
          (cs, h2) = deepcopy_each ms h1
      in (c # cs, h2))"

text \<open>
  The loop over \<^verbatim>\<open>zip(self.__ensemble, self.__prior_fns)\<close>: the member's weight is cloned
  into \<open>loc\<close>, \<open>scale\<close> is \<open>0.1 * beta\<close> everywhere, the distribution is appended, and the
  prior function's weight is frozen. The accumulator is \<^verbatim>\<open>self.__priors\<close>.
\<close>

fun set_priors ::
  "('x module \<times> 'x module) list \<Rightarrow> real \<Rightarrow> normal list \<Rightarrow> heap \<Rightarrow> (error + normal list) \<times> heap" where
  "set_priors [] b ps h = (Inr ps, h)"
| "set_priors ((model, prior_fn) # others) b ps h =
     (case getattr model ''weight'' of
        Inl e \<Rightarrow> (Inl e, h)
      | Inr a \<Rightarrow>
          (let l = data (cells h a);
               s = full_like l (1 / 10 * b);
               ps' = ps @ [\<lparr>loc = l, scale = s\<rparr>]
           in (case getattr prior_fn ''weight'' of
                 Inl e \<Rightarrow> (Inl e, h)
               | Inr pa \<Rightarrow> set_priors others b ps' (set_requires_grad h pa False))))"

text \<open>
  \<^verbatim>\<open>BootstrappedEstimator.__init__(proto_model, B, beta)\<close>. \<^verbatim>\<open>range(B)\<close> is empty for
  \<open>B \<le> 0\<close>; \<^verbatim>\<open>if beta:\<close> holds for every non-zero \<open>beta\<close>. An exception leaves the store and
  the generator as they are at that point.
\<close>

definition init ::
  "'x module \<Rightarrow> int \<Rightarrow> real \<Rightarrow> heap \<Rightarrow> rng \<Rightarrow> (error + 'x bootstrapped) \<times> heap \<times> rng" where
  "init proto_model B b h g =
     (let (ens, h1) = deepcopies proto_model (nat B) h;
          (h2, g2) = reset_each ens h1 g
      in if b \<noteq> 0
         then (let (pfs, h3) = deepcopy_each ens h2
               in (case set_priors (zip ens pfs) b [] h3 of
                     (Inl e, h4) \<Rightarrow> (Inl e, h4, g2)
                   | (Inr ps, h4) \<Rightarrow>
                       (Inr \<lparr>ensemble = ens, bno = B, beta = b, prior_fns = pfs, priors = ps\<rparr>, h4, g2)))
         else (Inr \<lparr>ensemble = ens, bno = B, beta = b, prior_fns = [], priors = []\<rparr>, h2, g2))"

subsection \<open>Prediction\<close>

text \<open>
  \<^verbatim>\<open>for prior, prior_fn in zip(self.__priors, self.__prior_fns):
      prior_fn.weight.data = prior.sample()\<close>
  The right-hand side is evaluated first, so the generator has advanced when the
  attribute lookup on the left raises.
\<close>

fun resample :: "(normal \<times> 'x module) list \<Rightarrow> heap \<Rightarrow> rng \<Rightarrow> (error + unit) \<times> heap \<times> rng" where
  "resample [] h g = (Inr (), h, g)"
| "resample ((prior, prior_fn) # others) h g =
     (let (s, g1) = sample prior g
      in (case getattr prior_fn ''weight'' of
            Inl e \<Rightarrow> (Inl e, h, g1)
          | Inr a \<Rightarrow> resample others (set_data h a s) g1))"

text \<open>\<^verbatim>\<open>[model(x) for model in self.__ensemble]\<close>\<close>

fun outputs :: "'x module list \<Rightarrow> 'x \<Rightarrow> heap \<Rightarrow> error + tensor list" where
  "outputs [] x h = Inr []"
| "outputs (m # ms) x h =
     (case call m x h of
        Inl e \<Rightarrow> Inl e
      | Inr y \<Rightarrow> (case outputs ms x h of Inl e \<Rightarrow> Inl e | Inr ys \<Rightarrow> Inr (y # ys)))"

text \<open>\<^verbatim>\<open>[m(x) + p(x) for m, p in zip(self.__ensemble, self.__prior_fns)]\<close>\<close>

fun outputs_with_priors :: "('x module \<times> 'x module) list \<Rightarrow> 'x \<Rightarrow> heap \<Rightarrow> error + tensor list" where
  "outputs_with_priors [] x h = Inr []"
| "outputs_with_priors ((m, p) # others) x h =
     (case call m x h of
        Inl e \<Rightarrow> Inl e
      | Inr u \<Rightarrow>
          (case call p x h of
             Inl e \<Rightarrow> Inl e
           | Inr v \<Rightarrow>
               (case tadd u v of
                  Inl e \<Rightarrow> Inl e
                | Inr y \<Rightarrow>
                    (case outputs_with_priors others x h of
                       Inl e \<Rightarrow> Inl e
                     | Inr ys \<Rightarrow> Inr (y # ys)))))"

text \<open>\<^verbatim>\<open>torch.stack(ys, 0).mean(0)\<close>\<close>

definition stack_mean :: "tensor list \<Rightarrow> error + tensor" where
  "stack_mean ys = (case stack ys of Inl e \<Rightarrow> Inl e | Inr t \<Rightarrow> Inr (mean0 t))"

text \<open>
  \<^verbatim>\<open>forward(x, mid=None)\<close>. The result comes with the store and the generator after the
  call, also when the call raises. Estimator outputs are fresh tensors, so the in-place
  \<^verbatim>\<open>y += ...\<close> changes nothing but \<open>y\<close>.
\<close>

definition forward ::
  "'x bootstrapped \<Rightarrow> 'x \<Rightarrow> int option \<Rightarrow> heap \<Rightarrow> rng \<Rightarrow> (error + tensor) \<times> heap \<times> rng" where
  "forward self x mid h g =
     (case mid of
        Some i \<Rightarrow>
          (case getitem (ensemble self) i of
             Inl e \<Rightarrow> (Inl e, h, g)
           | Inr m \<Rightarrow>
               (case call m x h of
                  Inl e \<Rightarrow> (Inl e, h, g)
                | Inr y \<Rightarrow>
                    if priors self \<noteq> []
                    then (case getitem (priors self) i of
                            Inl e \<Rightarrow> (Inl e, h, g)
                          | Inr prior \<Rightarrow>
                              (let (s, g1) = sample prior g
                               in (case getitem (prior_fns self) i of
                                     Inl e \<Rightarrow> (Inl e, h, g1)
                                   | Inr prior_fn \<Rightarrow>
                                       (case getattr prior_fn ''weight'' of
                                          Inl e \<Rightarrow> (Inl e, h, g1)
                                        | Inr a \<Rightarrow>
                                            (let h1 = set_data h a s
                                             in (case getitem (prior_fns self) i of
                                                   Inl e \<Rightarrow> (Inl e, h1, g1)
                                                 | Inr p \<Rightarrow>
                                                     (case call p x h1 of
                                                        Inl e \<Rightarrow> (Inl e, h1, g1)
                                                      | Inr v \<Rightarrow> (tadd y v, h1, g1))))))))
                    else (Inr y, h, g)))
      | None \<Rightarrow>
          if priors self \<noteq> []
          then (case resample (zip (priors self) (prior_fns self)) h g of
                  (Inl e, h1, g1) \<Rightarrow> (Inl e, h1, g1)
                | (Inr _, h1, g1) \<Rightarrow>
                    (case outputs_with_priors (zip (ensemble self) (prior_fns self)) x h1 of
                       Inl e \<Rightarrow> (Inl e, h1, g1)
                     | Inr ys \<Rightarrow> (stack_mean ys, h1, g1)))
          else (case outputs (ensemble self) x h of
                  Inl e \<Rightarrow> (Inl e, h, g)
                | Inr ys \<Rightarrow> (stack_mean ys, h, g)))"

subsection \<open>Uncertainty, parameter groups, iteration\<close>

text \<open>
  \<^verbatim>\<open>var(x, action=None)\<close> reads the store and writes nothing. \<^verbatim>\<open>Tensor.var(0)\<close> is called
  with the library's default, the unbiased estimator.
\<close>

definition var :: "'x bootstrapped \<Rightarrow> 'x \<Rightarrow> int option \<Rightarrow> heap \<Rightarrow> error + tensor" where
  "var self x action h =
     (case outputs (ensemble self) x h of
        Inl e \<Rightarrow> Inl e
      | Inr ys \<Rightarrow>
          (case action of
             None \<Rightarrow> (case stack ys of Inl e \<Rightarrow> Inl e | Inr t \<Rightarrow> Inr (var0 True t))
           | Some a \<Rightarrow>
               (case stack ys of
                  Inl e \<Rightarrow> Inl e
                | Inr t \<Rightarrow>
                    (case select (var0 True t) 0 of
                       Inl e \<Rightarrow> Inl e
                     | Inr row \<Rightarrow> select row a))))"

text \<open>\<^verbatim>\<open>[{"params": model.parameters()} for model in self.__ensemble]\<close>: one group per member.\<close>

definition parameters :: "'x bootstrapped \<Rightarrow> nat list list" where
  "parameters self = map module_parameters (ensemble self)"

definition iter :: "'x bootstrapped \<Rightarrow> 'x module list" where
  "iter self = ensemble self"

definition len :: "'x bootstrapped \<Rightarrow> int" where
  "len self = int (length (ensemble self))"

section \<open>What the ensemble is specified to compute\<close>

text \<open>
  The definitions of this section follow the specification, not the code; the theorems
  relate them to the functions above.
\<close>

text \<open>The position that a Python index in \<open>[-n, n)\<close> denotes.\<close>

definition norm_index :: "nat \<Rightarrow> int \<Rightarrow> nat" where
  "norm_index n i = nat (if i < 0 then int n + i else i)"

text \<open>The results of a list of computations, or the first exception among them.\<close>

fun sequence :: "(error + 'a) list \<Rightarrow> error + 'a list" where
  "sequence [] = Inr []"
| "sequence (r # rs) =
     (case r of
        Inl e \<Rightarrow> Inl e
      | Inr y \<Rightarrow> (case sequence rs of Inl e \<Rightarrow> Inl e | Inr ys \<Rightarrow> Inr (y # ys)))"

text \<open>One fresh sample of every distribution, drawn in order.\<close>

fun draw_each :: "normal list \<Rightarrow> rng \<Rightarrow> tensor list \<times> rng" where
  "draw_each [] g = ([], g)"
| "draw_each (d # ds) g =
     (let (s, g1) = sample d g;
          (ss, g2) = draw_each ds g1
      in (s # ss, g2))"

text \<open>The store after the \<^verbatim>\<open>data\<close> of each listed parameter was replaced.\<close>

definition write_all :: "(nat \<times> tensor) list \<Rightarrow> heap \<Rightarrow> heap" where
  "write_all ws h = fold (\<lambda>(a, s) h'. set_data h' a s) ws h"

text \<open>
  \<open>member(x) + prior_fn(x)\<close>, the member evaluated on the store as it is and the prior
  function evaluated after its weight, the parameter at \<open>a\<close>, was replaced by the sample \<open>s\<close>.
\<close>

definition member_with_prior ::
  "'x module \<Rightarrow> 'x module \<Rightarrow> nat \<Rightarrow> tensor \<Rightarrow> 'x \<Rightarrow> heap \<Rightarrow> error + tensor" where
  "member_with_prior m p a s x h =
     (case call m x h of
        Inl e \<Rightarrow> Inl e
      | Inr u \<Rightarrow> (case call p x (set_data h a s) of Inl e \<Rightarrow> Inl e | Inr v \<Rightarrow> tadd u v))"

text \<open>
  Sequences of calls on one ensemble. \<^verbatim>\<open>var\<close> reads the store only; a call of \<^verbatim>\<open>forward\<close>
  leaves the store and the generator it returns, whether or not it raised. No operation
  assigns to a field of the ensemble object, so its distributions are those of
  construction throughout.
\<close>

datatype 'x operation = Forward 'x "int option" | Var 'x "int option"

fun step :: "'x bootstrapped \<Rightarrow> 'x operation \<Rightarrow> heap \<times> rng \<Rightarrow> heap \<times> rng" where
  "step self (Forward x mid) (h, g) = snd (forward self x mid h g)"
| "step self (Var x action) (h, g) = (h, g)"

definition run :: "'x bootstrapped \<Rightarrow> 'x operation list \<Rightarrow> heap \<times> rng \<Rightarrow> heap \<times> rng" where
  "run self ops s = fold (step self) ops s"

text \<open>
  \<open>only_resampled self h h'\<close>: the store \<open>h'\<close> differs from \<open>h\<close> at most in the \<^verbatim>\<open>data\<close> of
  weights of prior functions, each holding a sample of the distribution of the same index.
\<close>

definition only_resampled :: "'x bootstrapped \<Rightarrow> heap \<Rightarrow> heap \<Rightarrow> bool" where
  "only_resampled self h h' \<longleftrightarrow>
     (\<forall>c. cells h' c = cells h c \<or>
          (\<exists>i < length (prior_fns self). \<exists>gi.
             getattr (prior_fns self ! i) ''weight'' = Inr c \<and>
             cells h' c = (cells h c)\<lparr>data := fst (sample (priors self ! i) gi)\<rparr>))"

text \<open>
  Allocation facts used in the proofs: a module whose parameters lie in an address range,
  modules with pairwise disjoint parameters, and the shape of a constructed ensemble.
\<close>

definition alloc_in :: "nat \<Rightarrow> nat \<Rightarrow> 'x module \<Rightarrow> bool" where
  "alloc_in lo hi m = (\<forall>a \<in> set (addrs m). lo \<le> a \<and> a < hi)"

fun disjoint_mods :: "'x module list \<Rightarrow> bool" where
  "disjoint_mods [] = True"
| "disjoint_mods (m # ms) = ((\<forall>m' \<in> set ms. set (addrs m) \<inter> set (addrs m') = {}) \<and> disjoint_mods ms)"

definition wf :: "'x bootstrapped \<Rightarrow> bool" where
  "wf self \<longleftrightarrow>
     length (prior_fns self) = length (priors self) \<and>
     (priors self = [] \<or> length (priors self) = length (ensemble self)) \<and>
     (\<forall>p \<in> set (prior_fns self). \<not> isl (getattr p ''weight'')) \<and>
     disjoint_mods (ensemble self @ prior_fns self)"

section \<open>Concrete inputs\<close>

text \<open>An empty store, a generator, and small prototypes and inputs.\<close>

definition heap0 :: heap where
  "heap0 = \<lparr>cells = (\<lambda>_. \<lparr>data = \<lparr>shape = [], elems = []\<rparr>, requires_grad = False\<rparr>),
            fresh = 0, objects = 0\<rparr>"

definition rng0 :: rng where
  "rng0 = \<lparr>normal_seq = (\<lambda>n. real n), linear_init_seq = (\<lambda>k n. real n / 4), pos = 0\<rparr>"

definition x0 :: input where
  "x0 = \<lparr>dt = UInt8, val = \<lparr>shape = [1, 1], elems = [Fin 2]\<rparr>\<rparr>"

definition x1 :: tensor where
  "x1 = \<lparr>shape = [1, 1], elems = [Fin 2]\<rparr>"

text \<open>
  The estimator of \<^verbatim>\<open>models.py\<close> with one input feature and two outputs, and an ensemble of
  three members without priors built from it.
\<close>

definition plain_proto :: "input module \<times> heap \<times> rng" where
  "plain_proto = LinearEstimator 1 2 heap0 rng0"

definition plain_init :: "(error + input bootstrapped) \<times> heap \<times> rng" where
  "plain_init = init (fst plain_proto) 3 0 (fst (snd plain_proto)) (snd (snd plain_proto))"

definition plain_self :: "input bootstrapped" where
  "plain_self = projr (fst plain_init)"

definition plain_heap :: heap where
  "plain_heap = fst (snd plain_init)"

definition plain_rng :: rng where
  "plain_rng = snd (snd plain_init)"

text \<open>
  The library's linear layer with one input and one output feature, and an ensemble of
  two members with \<open>beta = 1\<close> built from it.
\<close>

definition priors_proto :: "tensor module \<times> heap \<times> rng" where
  "priors_proto = Linear 1 1 heap0 rng0"

definition priors_init :: "(error + tensor bootstrapped) \<times> heap \<times> rng" where
  "priors_init = init (fst priors_proto) 2 1 (fst (snd priors_proto)) (snd (snd priors_proto))"

definition priors_self :: "tensor bootstrapped" where
  "priors_self = projr (fst priors_init)"

definition priors_heap :: heap where
  "priors_heap = fst (snd priors_init)"

definition priors_rng :: rng where
  "priors_rng = snd (snd priors_init)"

section \<open>Auxiliary facts\<close>

lemma getitem_nonneg: "0 \<le> i \<Longrightarrow> i < int (length xs) \<Longrightarrow> getitem xs i = Inr (xs ! nat i)"
  by (simp add: getitem_def)

lemma getitem_wrap:
  "- int (length xs) \<le> i \<Longrightarrow> i < 0 \<Longrightarrow> getitem xs i = getitem xs (int (length xs) + i)"
  by (simp add: getitem_def)

lemma getitem_outside:
  "i < - int (length xs) \<or> int (length xs) \<le> i \<Longrightarrow> getitem xs i = Inl IndexError"
  by (auto simp add: getitem_def)

lemma set_module_parameters [simp]: "set (module_parameters m) = set (addrs m)"
  by (simp add: module_parameters_def)

lemma distinct_module_parameters [simp]: "distinct (module_parameters m)"
  by (simp add: module_parameters_def)

lemma index_of_less: "a \<in> set xs \<Longrightarrow> index_of xs a < length xs"
  by (induction xs) auto

lemma nth_index_of: "a \<in> set xs \<Longrightarrow> xs ! index_of xs a = a"
  by (induction xs) auto

lemma mem_params_addrs: "(n, a) \<in> set (params m) \<Longrightarrow> a \<in> set (addrs m)"
  by (force simp add: addrs_def)

lemma map_of_map_snd:
  "map_of (map (\<lambda>(k, v). (k, f v)) xs) k = map_option f (map_of xs k)"
  by (induction xs) auto

lemma deepcopy_addrs:
  assumes "deepcopy m h = (c, h')"
  shows "addrs c = map (\<lambda>a. fresh h + index_of (module_parameters m) a) (addrs m)"
    and "fresh h' = fresh h + length (module_parameters m)"
  using assms by (auto simp add: deepcopy_def Let_def addrs_def split_def)

lemma deepcopy_alloc_in:
  assumes "deepcopy m h = (c, h')"
  shows "alloc_in (fresh h) (fresh h') c"
  unfolding alloc_in_def deepcopy_addrs[OF assms]
  by (auto intro: index_of_less)

lemma deepcopy_facts:
  assumes "deepcopy m h = (c, h')"
  shows "fresh h \<le> fresh h'"
    and "ident c = objects h"
    and "objects h' = Suc (objects h)"
    and "forward_fn c = forward_fn m"
    and "reset_fn c = reset_fn m"
    and "map fst (params c) = map fst (params m)"
    and "length (params c) = length (params m)"
  using assms
  by (auto simp add: deepcopy_def Let_def comp_def split_def)

lemma deepcopy_old_cells:
  assumes "deepcopy m h = (c, h')" "a < fresh h"
  shows "cells h' a = cells h a"
  using assms by (auto simp add: deepcopy_def Let_def)

lemma deepcopy_getattr:
  assumes "deepcopy m h = (c, h')"
  shows "isl (getattr c name) = isl (getattr m name)"
proof -
  have "map_of (params c) name = map_option (\<lambda>a. fresh h + index_of (module_parameters m) a) (map_of (params m) name)"
    using assms by (auto simp add: deepcopy_def Let_def map_of_map_snd)
  then show ?thesis by (simp add: getattr_def split: option.splits)
qed

lemma deepcopy_cells_new:
  assumes "deepcopy m h = (c, h')" "i < length (params m)"
  shows "cells h' (addrs c ! i) = cells h (addrs m ! i)"
  using assms
  by (auto simp add: deepcopy_def Let_def addrs_def split_def index_of_less nth_index_of)

lemma alloc_in_mono: "alloc_in lo hi m \<Longrightarrow> lo' \<le> lo \<Longrightarrow> hi \<le> hi' \<Longrightarrow> alloc_in lo' hi' m"
  by (fastforce simp add: alloc_in_def)

lemma alloc_in_disjoint:
  "alloc_in lo mid m \<Longrightarrow> alloc_in mid hi m' \<Longrightarrow> set (addrs m) \<inter> set (addrs m') = {}"
  by (fastforce simp add: alloc_in_def)

lemma disjoint_mods_append:
  "disjoint_mods (xs @ ys) \<longleftrightarrow>
     disjoint_mods xs \<and> disjoint_mods ys \<and>
     (\<forall>m \<in> set xs. \<forall>m' \<in> set ys. set (addrs m) \<inter> set (addrs m') = {})"
  by (induction xs) auto

lemma disjoint_mods_nth:
  "disjoint_mods ms \<Longrightarrow> i < length ms \<Longrightarrow> j < length ms \<Longrightarrow> i \<noteq> j \<Longrightarrow>
     set (addrs (ms ! i)) \<inter> set (addrs (ms ! j)) = {}"
proof (induction ms arbitrary: i j)
  case Nil
  then show ?case by simp
next
  case (Cons m ms)
  show ?case
  proof (cases i)
    case 0
    with Cons.prems obtain j' where "j = Suc j'" by (cases j) auto
    with 0 Cons.prems show ?thesis by auto
  next
    case (Suc i')
    show ?thesis
    proof (cases j)
      case 0
      with Suc Cons.prems have "set (addrs m) \<inter> set (addrs (ms ! i')) = {}" by auto
      with 0 Suc show ?thesis by auto
    next
      case (Suc j')
      with \<open>i = Suc i'\<close> Cons show ?thesis by auto
    qed
  qed
qed

lemma deepcopies_replicate: "deepcopies m n h = deepcopy_each (replicate n m) h"
  by (induction n arbitrary: h) (auto simp add: Let_def split: prod.splits)

lemma deepcopy_each_length: "deepcopy_each ms h = (cs, h') \<Longrightarrow> length cs = length ms"
  by (induction ms arbitrary: h cs) (auto simp add: Let_def split: prod.splits)

lemma deepcopy_each_fresh: "deepcopy_each ms h = (cs, h') \<Longrightarrow> fresh h \<le> fresh h'"
proof (induction ms arbitrary: h cs)
  case Nil
  then show ?case by simp
next
  case (Cons m ms)
  then obtain c h1 cs' where c: "deepcopy m h = (c, h1)" and r: "deepcopy_each ms h1 = (cs', h')"
    by (auto simp add: Let_def split: prod.splits)
  from deepcopy_facts(1)[OF c] Cons.IH[OF r] show ?case by simp
qed

lemma deepcopy_each_alloc:
  "deepcopy_each ms h = (cs, h') \<Longrightarrow>
     (\<forall>c \<in> set cs. alloc_in (fresh h) (fresh h') c) \<and> disjoint_mods cs"
proof (induction ms arbitrary: h cs)
  case Nil
  then show ?case by auto
next
  case (Cons m ms)
  then obtain c h1 cs' where c: "deepcopy m h = (c, h1)" and r: "deepcopy_each ms h1 = (cs', h')"
    and cs: "cs = c # cs'"
    by (auto simp add: Let_def split: prod.splits)
  have le1: "fresh h \<le> fresh h1" by (rule deepcopy_facts(1)[OF c])
  have le2: "fresh h1 \<le> fresh h'" by (rule deepcopy_each_fresh[OF r])
  have a1: "alloc_in (fresh h) (fresh h1) c" by (rule deepcopy_alloc_in[OF c])
  from Cons.IH[OF r] have a2: "\<forall>c' \<in> set cs'. alloc_in (fresh h1) (fresh h') c'"
    and d2: "disjoint_mods cs'" by auto
  have "\<forall>c' \<in> set cs'. set (addrs c) \<inter> set (addrs c') = {}"
    using a1 a2 alloc_in_disjoint by blast
  moreover have "alloc_in (fresh h) (fresh h') c"
    using a1 le2 by (auto intro: alloc_in_mono)
  moreover have "\<forall>c' \<in> set cs'. alloc_in (fresh h) (fresh h') c'"
    using a2 le1 by (auto intro: alloc_in_mono)
  ultimately show ?case using cs d2 by auto
qed

lemma deepcopy_each_ident:
  "deepcopy_each ms h = (cs, h') \<Longrightarrow>
     objects h' = objects h + length ms \<and> map ident cs = [objects h..<objects h + length ms]"
proof (induction ms arbitrary: h cs)
  case Nil
  then show ?case by auto
next
  case (Cons m ms)
  then obtain c h1 cs' where c: "deepcopy m h = (c, h1)" and r: "deepcopy_each ms h1 = (cs', h')"
    and cs: "cs = c # cs'"
    by (auto simp add: Let_def split: prod.splits)
  have "[objects h..<objects h + length (m # ms)] =
          objects h # [Suc (objects h)..<Suc (objects h) + length ms]"
    by (simp add: upt_conv_Cons del: upt_Suc)
  with Cons.IH[OF r] deepcopy_facts(2,3)[OF c] cs show ?case
    by (simp del: upt_Suc)
qed

lemma deepcopy_each_same_class:
  "deepcopy_each ms h = (cs, h') \<Longrightarrow> i < length ms \<Longrightarrow>
     isl (getattr (cs ! i) name) = isl (getattr (ms ! i) name) \<and>
     forward_fn (cs ! i) = forward_fn (ms ! i) \<and>
     reset_fn (cs ! i) = reset_fn (ms ! i) \<and>
     map fst (params (cs ! i)) = map fst (params (ms ! i))"
proof (induction ms arbitrary: h cs i)
  case Nil
  then show ?case by simp
next
  case (Cons m ms)
  then obtain c h1 cs' where c: "deepcopy m h = (c, h1)" and r: "deepcopy_each ms h1 = (cs', h')"
    and cs: "cs = c # cs'"
    by (auto simp add: Let_def split: prod.splits)
  show ?case
  proof (cases i)
    case 0
    with cs deepcopy_getattr[OF c] deepcopy_facts[OF c] show ?thesis by simp
  next
    case (Suc i')
    with Cons.prems have "i' < length ms" by simp
    from Cons.IH[OF r this] cs Suc show ?thesis by simp
  qed
qed

lemma deepcopy_each_old_cells:
  "deepcopy_each ms h = (cs, h') \<Longrightarrow> a < fresh h \<Longrightarrow> cells h' a = cells h a"
proof (induction ms arbitrary: h cs)
  case Nil
  then show ?case by simp
next
  case (Cons m ms)
  then obtain c h1 cs' where c: "deepcopy m h = (c, h1)" and r: "deepcopy_each ms h1 = (cs', h')"
    by (auto simp add: Let_def split: prod.splits)
  have "a < fresh h1" using deepcopy_facts(1)[OF c] Cons.prems(2) by simp
  from Cons.IH[OF r this] deepcopy_old_cells[OF c Cons.prems(2)] show ?case by simp
qed

lemma set_data_frame [simp]:
  "fresh (set_data h a t) = fresh h"
  "objects (set_data h a t) = objects h"
  "requires_grad (cells (set_data h a t) c) = requires_grad (cells h c)"
  by (simp_all add: set_data_def)

lemma fold_set_data_frame:
  "fresh (fold (\<lambda>(a, t) h'. set_data h' a t) zs h) = fresh h \<and>
   objects (fold (\<lambda>(a, t) h'. set_data h' a t) zs h) = objects h \<and>
   requires_grad (cells (fold (\<lambda>(a, t) h'. set_data h' a t) zs h) c) = requires_grad (cells h c)"
proof (induction zs arbitrary: h)
  case Nil
  show ?case by simp
next
  case (Cons z zs)
  obtain a t where z: "z = (a, t)" by (cases z)
  show ?case using Cons.IH[of "set_data h a t"] by (simp add: z)
qed

lemma reset_parameters_frame:
  assumes "reset_parameters m h g = (h', g')"
  shows "fresh h' = fresh h" and "objects h' = objects h"
    and "requires_grad (cells h' c) = requires_grad (cells h c)"
proof -
  obtain ts where "h' = fold (\<lambda>(a, t) h'. set_data h' a t) (zip (addrs m) ts) h"
    using assms by (auto simp add: reset_parameters_def Let_def split: prod.splits)
  then show "fresh h' = fresh h" and "objects h' = objects h"
    and "requires_grad (cells h' c) = requires_grad (cells h c)"
    by (simp_all add: fold_set_data_frame)
qed

lemma reset_each_frame:
  "reset_each ms h g = (h', g') \<Longrightarrow>
     fresh h' = fresh h \<and> objects h' = objects h \<and>
     requires_grad (cells h' c) = requires_grad (cells h c)"
proof (induction ms arbitrary: h g)
  case Nil
  then show ?case by simp
next
  case (Cons m ms)
  then obtain h1 g1 where 1: "reset_parameters m h g = (h1, g1)" and 2: "reset_each ms h1 g1 = (h', g')"
    by (auto simp add: Let_def split: prod.splits)
  from Cons.IH[OF 2] reset_parameters_frame[OF 1] show ?case by simp
qed

lemma set_priors_Cons:
  "set_priors ((m, p) # zs) b ps h =
     (case getattr m ''weight'' of
        Inl e \<Rightarrow> (Inl e, h)
      | Inr a \<Rightarrow>
          (case getattr p ''weight'' of
             Inl e \<Rightarrow> (Inl e, h)
           | Inr pa \<Rightarrow>
               set_priors zs b
                 (ps @ [\<lparr>loc = data (cells h a), scale = full_like (data (cells h a)) (1 / 10 * b)\<rparr>])
                 (set_requires_grad h pa False)))"
  by (simp add: Let_def split: sum.splits)

lemma getattr_error: "getattr m name = Inl e \<Longrightarrow> e = AttributeError"
  by (auto simp add: getattr_def split: option.splits)

lemma set_priors_error:
  "set_priors zs b ps h = (Inl e, h') \<Longrightarrow> e = AttributeError"
proof (induction zs arbitrary: ps h)
  case Nil
  then show ?case by simp
next
  case (Cons z zs)
  obtain m p where z: "z = (m, p)" by (cases z)
  from Cons.prems show ?case
    unfolding z set_priors_Cons
    by (auto split: sum.splits dest: getattr_error Cons.IH)
qed

lemma set_priors_frame:
  "set_priors zs b ps h = (r, h') \<Longrightarrow>
     fresh h' = fresh h \<and> objects h' = objects h \<and> data (cells h' c) = data (cells h c) \<and>
     (\<not> requires_grad (cells h c) \<longrightarrow> \<not> requires_grad (cells h' c))"
proof (induction zs arbitrary: ps h)
  case Nil
  then show ?case by simp
next
  case (Cons z zs)
  obtain m p where z: "z = (m, p)" by (cases z)
  from Cons.prems show ?case
    unfolding z set_priors_Cons
    by (auto split: sum.splits dest!: Cons.IH simp add: set_requires_grad_def split: if_splits)
qed

lemma set_priors_success:
  "set_priors zs b ps h = (Inr ps', h') \<Longrightarrow>
     length ps' = length ps + length zs \<and> take (length ps) ps' = ps \<and>
     (\<forall>i < length zs. \<exists>a pa.
        getattr (fst (zs ! i)) ''weight'' = Inr a \<and>
        getattr (snd (zs ! i)) ''weight'' = Inr pa \<and>
        ps' ! (length ps + i) =
          \<lparr>loc = data (cells h a), scale = full_like (data (cells h a)) (1 / 10 * b)\<rparr> \<and>
        \<not> requires_grad (cells h' pa))"
proof (induction zs arbitrary: ps h)
  case Nil
  then show ?case by simp
next
  case (Cons z zs)
  obtain model prior_fn where z: "z = (model, prior_fn)" by (cases z)
  from Cons.prems obtain a where a: "getattr model ''weight'' = Inr a"
    unfolding z set_priors_Cons by (auto split: sum.splits)
  from Cons.prems a obtain pa where pa: "getattr prior_fn ''weight'' = Inr pa"
    unfolding z set_priors_Cons by (auto split: sum.splits)
  define d where "d = \<lparr>loc = data (cells h a), scale = full_like (data (cells h a)) (1 / 10 * b)\<rparr>"
  define h1 where "h1 = set_requires_grad h pa False"
  have rec: "set_priors zs b (ps @ [d]) h1 = (Inr ps', h')"
    using Cons.prems a pa unfolding z set_priors_Cons by (simp add: d_def h1_def)
  note IH = Cons.IH[OF rec]
  have data_same: "\<And>c. data (cells h1 c) = data (cells h c)"
    by (simp add: set_requires_grad_def h1_def)
  have len: "length ps' = length ps + length (z # zs)"
    using IH by simp
  have tk: "take (Suc (length ps)) ps' = ps @ [d]" using IH by simp
  have tk': "take (length ps) ps' = ps"
  proof -
    have "take (length ps) (take (Suc (length ps)) ps') = take (length ps) (ps @ [d])"
      by (simp only: tk)
    then show ?thesis by (simp add: min_def)
  qed
  have at0: "ps' ! length ps = d"
  proof -
    have "ps' ! length ps = take (Suc (length ps)) ps' ! length ps" by simp
    also have "\<dots> = d" by (simp only: tk) simp
    finally show ?thesis .
  qed
  have "\<not> requires_grad (cells h1 pa)" by (simp add: h1_def set_requires_grad_def)
  with set_priors_frame[OF rec, of pa] have frozen0: "\<not> requires_grad (cells h' pa)" by simp
  have idx: "\<exists>a pa. getattr (fst ((z # zs) ! i)) ''weight'' = Inr a \<and>
            getattr (snd ((z # zs) ! i)) ''weight'' = Inr pa \<and>
            ps' ! (length ps + i) =
              \<lparr>loc = data (cells h a), scale = full_like (data (cells h a)) (1 / 10 * b)\<rparr> \<and>
            \<not> requires_grad (cells h' pa)" if i: "i < length (z # zs)" for i
  proof (cases i)
    case 0
    with a pa at0 frozen0 z show ?thesis by (auto simp add: d_def)
  next
    case (Suc i')
    with i have "i' < length zs" by simp
    with IH obtain a' pa' where
      "getattr (fst (zs ! i')) ''weight'' = Inr a'"
      "getattr (snd (zs ! i')) ''weight'' = Inr pa'"
      "ps' ! (length (ps @ [d]) + i') =
         \<lparr>loc = data (cells h1 a'), scale = full_like (data (cells h1 a')) (1 / 10 * b)\<rparr>"
      "\<not> requires_grad (cells h' pa')"
      by blast
    with Suc data_same show ?thesis by auto
  qed
  from len tk' idx show ?case by blast
qed

lemma init_unfold:
  assumes "init proto B b h g = (r, h', g')"
  obtains ens ha hb where
    "deepcopy_each (replicate (nat B) proto) h = (ens, ha)"
    "reset_each ens ha g = (hb, g')"
    "b = 0" "r = Inr \<lparr>ensemble = ens, bno = B, beta = b, prior_fns = [], priors = []\<rparr>" "h' = hb"
  | ens ha hb pfs hc e where
    "deepcopy_each (replicate (nat B) proto) h = (ens, ha)"
    "reset_each ens ha g = (hb, g')"
    "b \<noteq> 0" "deepcopy_each ens hb = (pfs, hc)"
    "set_priors (zip ens pfs) b [] hc = (Inl e, h')" "r = Inl e"
  | ens ha hb pfs hc ps where
    "deepcopy_each (replicate (nat B) proto) h = (ens, ha)"
    "reset_each ens ha g = (hb, g')"
    "b \<noteq> 0" "deepcopy_each ens hb = (pfs, hc)"
    "set_priors (zip ens pfs) b [] hc = (Inr ps, h')"
    "r = Inr \<lparr>ensemble = ens, bno = B, beta = b, prior_fns = pfs, priors = ps\<rparr>"
proof -
  obtain ens ha where 1: "deepcopy_each (replicate (nat B) proto) h = (ens, ha)"
    by (cases "deepcopy_each (replicate (nat B) proto) h")
  obtain hb gb where 2: "reset_each ens ha g = (hb, gb)"
    by (cases "reset_each ens ha g")
  show thesis
  proof (cases "b = 0")
    case True
    with assms 1 2 that(1) show ?thesis
      by (auto simp add: init_def deepcopies_replicate)
  next
    case False
    obtain pfs hc where 3: "deepcopy_each ens hb = (pfs, hc)"
      by (cases "deepcopy_each ens hb")
    obtain r4 hd where 4: "set_priors (zip ens pfs) b [] hc = (r4, hd)"
      by (cases "set_priors (zip ens pfs) b [] hc")
    show ?thesis
    proof (cases r4)
      case (Inl e)
      with assms 1 2 3 4 False that(2) show ?thesis
        by (auto simp add: init_def deepcopies_replicate)
    next
      case (Inr ps)
      with assms 1 2 3 4 False that(3) show ?thesis
        by (auto simp add: init_def deepcopies_replicate)
    qed
  qed
qed

lemma init_ensemble:
  assumes "init proto B b h g = (Inr self, h', g')"
  shows "length (ensemble self) = nat B" and "bno self = B" and "beta self = b"
    and "\<forall>i < length (ensemble self).
           isl (getattr (ensemble self ! i) name) = isl (getattr proto name) \<and>
           forward_fn (ensemble self ! i) = forward_fn proto \<and>
           reset_fn (ensemble self ! i) = reset_fn proto \<and>
           map fst (params (ensemble self ! i)) = map fst (params proto)"
    and "map ident (ensemble self) = [objects h..<objects h + nat B]"
proof -
  from assms obtain ens ha where
    dc: "deepcopy_each (replicate (nat B) proto) h = (ens, ha)" and
    e: "ensemble self = ens" and "bno self = B" and "beta self = b"
    by (cases rule: init_unfold) auto
  then show "bno self = B" and "beta self = b" by simp_all
  from deepcopy_each_length[OF dc] e show "length (ensemble self) = nat B" by simp
  from deepcopy_each_same_class[OF dc] deepcopy_each_length[OF dc] e
  show "\<forall>i < length (ensemble self).
           isl (getattr (ensemble self ! i) name) = isl (getattr proto name) \<and>
           forward_fn (ensemble self ! i) = forward_fn proto \<and>
           reset_fn (ensemble self ! i) = reset_fn proto \<and>
           map fst (params (ensemble self ! i)) = map fst (params proto)"
    by simp
  from deepcopy_each_ident[OF dc] e show "map ident (ensemble self) = [objects h..<objects h + nat B]"
    by simp
qed

lemma init_without_priors:
  assumes "init proto B 0 h g = (Inr self, h', g')"
  shows "prior_fns self = []" and "priors self = []"
  using assms by (cases rule: init_unfold; simp)+

lemma init_with_priors:
  assumes "init proto B b h g = (Inr self, h', g')" and "b \<noteq> 0"
  shows "length (prior_fns self) = nat B" and "length (priors self) = nat B"
    and "\<forall>i < nat B. \<exists>a pa.
           getattr (ensemble self ! i) ''weight'' = Inr a \<and>
           getattr (prior_fns self ! i) ''weight'' = Inr pa \<and>
           priors self ! i =
             \<lparr>loc = data (cells h' a), scale = full_like (data (cells h' a)) (1 / 10 * b)\<rparr> \<and>
           \<not> requires_grad (cells h' pa)"
    and "map ident (prior_fns self) = [objects h + nat B..<objects h + nat B + nat B]"
proof -
  from assms obtain ens ha hb pfs hc ps where
    dc: "deepcopy_each (replicate (nat B) proto) h = (ens, ha)" and
    rs: "reset_each ens ha g = (hb, g')" and
    dp: "deepcopy_each ens hb = (pfs, hc)" and
    sp: "set_priors (zip ens pfs) b [] hc = (Inr ps, h')" and
    self: "self = \<lparr>ensemble = ens, bno = B, beta = b, prior_fns = pfs, priors = ps\<rparr>"
    by (cases rule: init_unfold) auto
  have le: "length ens = nat B" using deepcopy_each_length[OF dc] by simp
  have lp: "length pfs = nat B" using deepcopy_each_length[OF dp] le by simp
  from lp self show "length (prior_fns self) = nat B" by simp
  have lz: "length (zip ens pfs) = nat B" using le lp by simp
  note S = set_priors_success[OF sp]
  from S lz self show "length (priors self) = nat B" by simp
  have same: "\<And>c. data (cells h' c) = data (cells hc c)"
    using set_priors_frame[OF sp] by simp
  show "\<forall>i < nat B. \<exists>a pa.
           getattr (ensemble self ! i) ''weight'' = Inr a \<and>
           getattr (prior_fns self ! i) ''weight'' = Inr pa \<and>
           priors self ! i =
             \<lparr>loc = data (cells h' a), scale = full_like (data (cells h' a)) (1 / 10 * b)\<rparr> \<and>
           \<not> requires_grad (cells h' pa)"
  proof (intro allI impI)
    fix i assume i: "i < nat B"
    with S lz obtain a pa where
      "getattr (fst (zip ens pfs ! i)) ''weight'' = Inr a"
      "getattr (snd (zip ens pfs ! i)) ''weight'' = Inr pa"
      "ps ! (length ([]::normal list) + i) =
         \<lparr>loc = data (cells hc a), scale = full_like (data (cells hc a)) (1 / 10 * b)\<rparr>"
      "\<not> requires_grad (cells h' pa)"
      by metis
    with i le lp self same show "\<exists>a pa.
           getattr (ensemble self ! i) ''weight'' = Inr a \<and>
           getattr (prior_fns self ! i) ''weight'' = Inr pa \<and>
           priors self ! i =
             \<lparr>loc = data (cells h' a), scale = full_like (data (cells h' a)) (1 / 10 * b)\<rparr> \<and>
           \<not> requires_grad (cells h' pa)"
      by auto
  qed
  have "objects hb = objects h + nat B"
    using deepcopy_each_ident[OF dc] reset_each_frame[OF rs] by simp
  with deepcopy_each_ident[OF dp] le self
  show "map ident (prior_fns self) = [objects h + nat B..<objects h + nat B + nat B]"
    by simp
qed

lemma init_disjoint:
  assumes "init proto B b h g = (Inr self, h', g')"
  shows "disjoint_mods (ensemble self @ prior_fns self)"
    and "\<forall>m \<in> set (ensemble self @ prior_fns self). alloc_in (fresh h) (fresh h') m"
proof -
  from assms have "disjoint_mods (ensemble self @ prior_fns self) \<and>
     (\<forall>m \<in> set (ensemble self @ prior_fns self). alloc_in (fresh h) (fresh h') m)"
  proof (cases rule: init_unfold)
    case (1 ens ha hb)
    from reset_each_frame[OF 1(2)] have "fresh hb = fresh ha" by simp
    with 1 deepcopy_each_alloc[OF 1(1)] show ?thesis by auto
  next
    case (2 ens ha hb pfs hc e)
    then show ?thesis by simp
  next
    case (3 ens ha hb pfs hc ps)
    have f1: "fresh hb = fresh ha" using reset_each_frame[OF 3(2)] by simp
    have f2: "fresh h' = fresh hc" using set_priors_frame[OF 3(5)] by simp
    have l1: "fresh h \<le> fresh ha" by (rule deepcopy_each_fresh[OF 3(1)])
    have l2: "fresh hb \<le> fresh hc" by (rule deepcopy_each_fresh[OF 3(4)])
    from deepcopy_each_alloc[OF 3(1)] have a1: "\<forall>c \<in> set ens. alloc_in (fresh h) (fresh ha) c"
      and d1: "disjoint_mods ens" by auto
    from deepcopy_each_alloc[OF 3(4)] f1 have a2: "\<forall>c \<in> set pfs. alloc_in (fresh ha) (fresh hc) c"
      and d2: "disjoint_mods pfs" by auto
    have cross: "\<forall>m \<in> set ens. \<forall>m' \<in> set pfs. set (addrs m) \<inter> set (addrs m') = {}"
      using a1 a2 alloc_in_disjoint by blast
    have "\<forall>c \<in> set ens. alloc_in (fresh h) (fresh h') c"
      using a1 l2 f1 f2 by (auto intro: alloc_in_mono)
    moreover have "\<forall>c \<in> set pfs. alloc_in (fresh h) (fresh h') c"
      using a2 l1 f2 by (auto intro: alloc_in_mono)
    ultimately show ?thesis using 3(6) d1 d2 cross by (auto simp add: disjoint_mods_append)
  qed
  then show "disjoint_mods (ensemble self @ prior_fns self)"
    and "\<forall>m \<in> set (ensemble self @ prior_fns self). alloc_in (fresh h) (fresh h') m" by simp_all
qed

lemma init_wf:
  assumes "init proto B b h g = (Inr self, h', g')"
  shows "wf self"
proof (cases "b = 0")
  case True
  with assms init_without_priors[of proto B h g self h' g'] init_disjoint(1)[OF assms]
  show ?thesis by (simp add: wf_def)
next
  case False
  note P = init_with_priors[OF assms False]
  have "\<forall>p \<in> set (prior_fns self). \<not> isl (getattr p ''weight'')"
  proof
    fix p assume "p \<in> set (prior_fns self)"
    then obtain i where i: "i < nat B" "prior_fns self ! i = p"
      using P(1) by (auto simp add: in_set_conv_nth)
    with P(3) obtain pa where "getattr p ''weight'' = Inr pa" by auto
    then show "\<not> isl (getattr p ''weight'')" by simp
  qed
  with P(1,2) init_ensemble(1)[OF assms] init_disjoint(1)[OF assms]
  show ?thesis by (simp add: wf_def)
qed

lemma getitem_norm:
  "- int (length xs) \<le> i \<Longrightarrow> i < int (length xs) \<Longrightarrow>
     getitem xs i = Inr (xs ! norm_index (length xs) i)"
  by (simp add: getitem_def norm_index_def)

lemma norm_index_less:
  "- int n \<le> i \<Longrightarrow> i < int n \<Longrightarrow> norm_index n i < n"
  by (auto simp add: norm_index_def)

lemma outputs_sequence: "outputs ms x h = sequence (map (\<lambda>m. call m x h) ms)"
  by (induction ms) (auto split: sum.splits)

lemma outputs_with_priors_sequence:
  "outputs_with_priors zs x h =
     sequence (map (\<lambda>(m, p). case call m x h of
                                Inl e \<Rightarrow> Inl e
                              | Inr u \<Rightarrow> (case call p x h of Inl e \<Rightarrow> Inl e | Inr v \<Rightarrow> tadd u v)) zs)"
proof (induction zs)
  case Nil
  show ?case by simp
next
  case (Cons z zs)
  obtain m p where z: "z = (m, p)" by (cases z)
  show ?case unfolding z using Cons.IH by (simp split: sum.splits)
qed

lemma write_all_Cons: "write_all ((a, s) # ws) h = write_all ws (set_data h a s)"
  by (simp add: write_all_def)

lemma write_all_Nil: "write_all [] h = h"
  by (simp add: write_all_def)

lemma resample_writes:
  "length ps = length pfs \<Longrightarrow> map (\<lambda>p. getattr p ''weight'') pfs = map Inr ws \<Longrightarrow>
     resample (zip ps pfs) h g =
       (Inr (), write_all (zip ws (fst (draw_each ps g))) h, snd (draw_each ps g))"
proof (induction ps pfs arbitrary: ws h g rule: list_induct2)
  case Nil
  then show ?case by (simp add: write_all_Nil)
next
  case (Cons d ds p pfs)
  from Cons.prems obtain a ws' where ws: "ws = a # ws'" and a: "getattr p ''weight'' = Inr a"
    and rest: "map (\<lambda>p. getattr p ''weight'') pfs = map Inr ws'"
    by (cases ws) auto
  obtain s g1 where s: "sample d g = (s, g1)" by (cases "sample d g")
  obtain ss g2 where ss: "draw_each ds g1 = (ss, g2)" by (cases "draw_each ds g1")
  from Cons.IH[OF rest, of "set_data h a s" g1] s ss a ws show ?case
    by (simp add: write_all_Cons)
qed

lemma call_cong:
  "(\<And>a. a \<in> set (addrs m) \<Longrightarrow> data (cells h a) = data (cells h' a)) \<Longrightarrow> call m x h = call m x h'"
proof -
  assume "\<And>a. a \<in> set (addrs m) \<Longrightarrow> data (cells h a) = data (cells h' a)"
  then have "map (\<lambda>a. data (cells h a)) (addrs m) = map (\<lambda>a. data (cells h' a)) (addrs m)"
    by simp
  then show ?thesis unfolding call_def by (rule arg_cong2[where f = "\<lambda>u v. forward_fn m u v", OF _ refl])
qed

lemma set_data_cells:
  "cells (set_data h a s) c = (if c = a then (cells h a)\<lparr>data := s\<rparr> else cells h c)"
  by (simp add: set_data_def)

lemma write_all_other:
  "a \<notin> fst ` set ws \<Longrightarrow> cells (write_all ws h) a = cells h a"
proof (induction ws arbitrary: h)
  case Nil
  show ?case by (simp add: write_all_Nil)
next
  case (Cons w ws)
  obtain b s where w: "w = (b, s)" by (cases w)
  from Cons.prems w have "a \<noteq> b" and "a \<notin> fst ` set ws" by auto
  with Cons.IH[of "set_data h b s"] w show ?case
    by (simp add: write_all_Cons set_data_cells)
qed

lemma write_all_nth:
  "distinct ws \<Longrightarrow> length ss = length ws \<Longrightarrow> i < length ws \<Longrightarrow>
     cells (write_all (zip ws ss) h) (ws ! i) = (cells h (ws ! i))\<lparr>data := ss ! i\<rparr>"
proof (induction ws arbitrary: ss i h)
  case Nil
  then show ?case by simp
next
  case (Cons a ws)
  from Cons.prems obtain s ss' where ss: "ss = s # ss'" by (cases ss) auto
  show ?case
  proof (cases i)
    case 0
    have "a \<notin> fst ` set (zip ws ss')" using Cons.prems(1) by (auto dest: set_zip_leftD)
    from write_all_other[OF this, of "set_data h a s"] 0 ss show ?thesis
      by (simp add: write_all_Cons set_data_cells)
  next
    case (Suc i')
    with Cons.prems ss have i': "i' < length ws" and d: "distinct ws" and l: "length ss' = length ws"
      and ne: "ws ! i' \<noteq> a" by auto
    from Cons.IH[OF d l i', of "set_data h a s"] ne Suc ss show ?thesis
      by (simp add: write_all_Cons set_data_cells)
  qed
qed

lemma getattr_mem: "getattr m name = Inr a \<Longrightarrow> a \<in> set (addrs m)"
  by (auto simp add: getattr_def addrs_def split: option.splits dest!: map_of_SomeD intro: rev_image_eqI)

lemma draw_each_Cons:
  "draw_each (d # ds) g =
     (fst (sample d g) # fst (draw_each ds (snd (sample d g))), snd (draw_each ds (snd (sample d g))))"
  by (simp add: Let_def split_def)

lemma draw_each_length: "length (fst (draw_each ps g)) = length ps"
  by (induction ps arbitrary: g) (simp_all add: draw_each_Cons del: draw_each.simps(2))

lemma draw_each_nth:
  "i < length ps \<Longrightarrow> \<exists>gi. fst (draw_each ps g) ! i = fst (sample (ps ! i) gi)"
proof (induction ps arbitrary: g i)
  case Nil
  then show ?case by simp
next
  case (Cons d ds)
  obtain s g1 where s: "sample d g = (s, g1)" by (cases "sample d g")
  show ?case
  proof (cases i)
    case 0
    with s show ?thesis by (auto simp add: Let_def split: prod.splits intro: exI[of _ g])
  next
    case (Suc i')
    with Cons.prems have "i' < length ds" by simp
    from Cons.IH[OF this, of g1] obtain gi where "fst (draw_each ds g1) ! i' = fst (sample (ds ! i') gi)" ..
    with s Suc show ?thesis by (auto simp add: Let_def split: prod.splits)
  qed
qed

lemma wf_weights:
  assumes "wf self"
  obtains ws where "map (\<lambda>p. getattr p ''weight'') (prior_fns self) = map Inr ws"
proof
  have "\<forall>p \<in> set (prior_fns self). getattr p ''weight'' = Inr (projr (getattr p ''weight''))"
    using assms by (auto simp add: wf_def)
  then show "map (\<lambda>p. getattr p ''weight'') (prior_fns self) =
             map Inr (map (\<lambda>p. projr (getattr p ''weight'')) (prior_fns self))"
    by simp
qed

lemma weights_nth:
  assumes "map (\<lambda>p. getattr p ''weight'') pfs = map Inr ws" and "i < length pfs"
  shows "getattr (pfs ! i) ''weight'' = Inr (ws ! i)" and "ws ! i \<in> set (addrs (pfs ! i))"
    and "length ws = length pfs"
proof -
  from assms(1) have l: "length pfs = length ws" by (metis length_map)
  then show "length ws = length pfs" by simp
  from assms(1) have "map (\<lambda>p. getattr p ''weight'') pfs ! i = map Inr ws ! i" by simp
  with assms(2) l show g: "getattr (pfs ! i) ''weight'' = Inr (ws ! i)" by simp
  then show "ws ! i \<in> set (addrs (pfs ! i))" by (rule getattr_mem)
qed

lemma weights_distinct:
  assumes "disjoint_mods pfs" and "map (\<lambda>p. getattr p ''weight'') pfs = map Inr ws"
  shows "distinct ws"
proof -
  have l: "length ws = length pfs" using assms(2) by (metis length_map)
  show ?thesis
  proof (subst distinct_conv_nth, intro allI impI)
    fix i j assume i: "i < length ws" and j: "j < length ws" and ne: "i \<noteq> j"
    from weights_nth(2)[OF assms(2)] i j l
    have "ws ! i \<in> set (addrs (pfs ! i))" and "ws ! j \<in> set (addrs (pfs ! j))" by simp_all
    moreover have "set (addrs (pfs ! i)) \<inter> set (addrs (pfs ! j)) = {}"
      using disjoint_mods_nth[OF assms(1)] i j l ne by simp
    ultimately show "ws ! i \<noteq> ws ! j" by auto
  qed
qed

lemma zip_as_indices:
  "length xs = length ys \<Longrightarrow> map f (zip xs ys) = map (\<lambda>i. f (xs ! i, ys ! i)) [0..<length xs]"
  by (rule nth_equalityI) simp_all

lemma forward_member_wf:
  assumes wf: "wf self"
    and lo: "- int (length (ensemble self)) \<le> i" and hi: "i < int (length (ensemble self))"
  defines "k \<equiv> norm_index (length (ensemble self)) i"
  shows "priors self = [] \<Longrightarrow>
           forward self x (Some i) h g = (call (ensemble self ! k) x h, h, g)"
    and "priors self \<noteq> [] \<Longrightarrow> getattr (prior_fns self ! k) ''weight'' = Inr a \<Longrightarrow>
           forward self x (Some i) h g =
             (member_with_prior (ensemble self ! k) (prior_fns self ! k) a
                (fst (sample (priors self ! k) g)) x h,
              if isl (call (ensemble self ! k) x h) then (h, g)
              else (set_data h a (fst (sample (priors self ! k) g)), snd (sample (priors self ! k) g)))"
proof -
  have m: "getitem (ensemble self) i = Inr (ensemble self ! k)"
    unfolding k_def by (rule getitem_norm[OF lo hi])
  show "forward self x (Some i) h g = (call (ensemble self ! k) x h, h, g)" if "priors self = []"
    using that m by (simp add: forward_def split: sum.splits)
  show "forward self x (Some i) h g =
             (member_with_prior (ensemble self ! k) (prior_fns self ! k) a
                (fst (sample (priors self ! k) g)) x h,
              if isl (call (ensemble self ! k) x h) then (h, g)
              else (set_data h a (fst (sample (priors self ! k) g)), snd (sample (priors self ! k) g)))"
    if ne: "priors self \<noteq> []" and a: "getattr (prior_fns self ! k) ''weight'' = Inr a"
  proof -
    from wf ne have lp: "length (priors self) = length (ensemble self)"
      and lf: "length (prior_fns self) = length (ensemble self)" by (auto simp add: wf_def)
    have p: "getitem (priors self) i = Inr (priors self ! k)"
      unfolding k_def using getitem_norm[of "priors self" i] lo hi lp by simp
    have f: "getitem (prior_fns self) i = Inr (prior_fns self ! k)"
      unfolding k_def using getitem_norm[of "prior_fns self" i] lo hi lf by simp
    show ?thesis
      using ne m p f a
      by (simp add: forward_def member_with_prior_def split_def Let_def split: sum.splits)
  qed
qed

lemma forward_all_plain:
  assumes "priors self = []"
  shows "forward self x None h g =
           (case sequence (map (\<lambda>m. call m x h) (ensemble self)) of
              Inl e \<Rightarrow> Inl e
            | Inr ys \<Rightarrow> stack_mean ys, h, g)"
  using assms by (simp add: forward_def outputs_sequence split: sum.splits)

lemma forward_all_priors:
  fixes g :: rng
  assumes wf: "wf self" and ne: "priors self \<noteq> []"
    and ws: "map (\<lambda>p. getattr p ''weight'') (prior_fns self) = map Inr ws"
  defines "ss \<equiv> fst (draw_each (priors self) g)"
  shows "forward self x None h g =
           (case sequence (map (\<lambda>i. member_with_prior (ensemble self ! i) (prior_fns self ! i)
                                      (ws ! i) (ss ! i) x h) [0..<length (ensemble self)]) of
              Inl e \<Rightarrow> Inl e
            | Inr ys \<Rightarrow> stack_mean ys,
            write_all (zip ws ss) h, snd (draw_each (priors self) g))"
proof -
  let ?ens = "ensemble self" and ?pfs = "prior_fns self"
  let ?n = "length ?ens"
  define h1 where "h1 = write_all (zip ws ss) h"
  from wf ne have lp: "length (priors self) = ?n" and lf: "length ?pfs = ?n"
    and dis: "disjoint_mods (?ens @ ?pfs)" by (auto simp add: wf_def)
  have lw: "length ws = ?n" using ws lf by (metis length_map)
  have ls: "length ss = ?n" using lp by (simp add: ss_def draw_each_length)
  have dpf: "disjoint_mods ?pfs" using dis by (simp add: disjoint_mods_append)
  have dw: "distinct ws" by (rule weights_distinct[OF dpf ws])
  have rs: "resample (zip (priors self) ?pfs) h g = (Inr (), h1, snd (draw_each (priors self) g))"
    using resample_writes[OF _ ws, of "priors self" h g] lp lf by (simp add: h1_def ss_def)
  have step: "(case call (?ens ! i) x h1 of
                 Inl e \<Rightarrow> Inl e
               | Inr u \<Rightarrow> (case call (?pfs ! i) x h1 of Inl e \<Rightarrow> Inl e | Inr v \<Rightarrow> tadd u v)) =
              member_with_prior (?ens ! i) (?pfs ! i) (ws ! i) (ss ! i) x h" if i: "i < ?n" for i
  proof -
    have c1: "call (?ens ! i) x h1 = call (?ens ! i) x h"
    proof (rule call_cong)
      fix a assume a: "a \<in> set (addrs (?ens ! i))"
      have "a \<notin> set ws"
      proof
        assume "a \<in> set ws"
        then obtain j where j: "j < length ws" "ws ! j = a" by (auto simp add: in_set_conv_nth)
        with weights_nth(2)[OF ws, of j] lw lf have "a \<in> set (addrs (?pfs ! j))" by simp
        moreover have "set (addrs (?ens ! i)) \<inter> set (addrs (?pfs ! j)) = {}"
          using dis i j lw lf by (simp add: disjoint_mods_append)
        ultimately show False using a by auto
      qed
      then have "a \<notin> fst ` set (zip ws ss)" by (auto dest: set_zip_leftD)
      then show "data (cells h1 a) = data (cells h a)"
        unfolding h1_def by (simp add: write_all_other)
    qed
    have c2: "call (?pfs ! i) x h1 = call (?pfs ! i) x (set_data h (ws ! i) (ss ! i))"
    proof (rule call_cong)
      fix a assume a: "a \<in> set (addrs (?pfs ! i))"
      show "data (cells h1 a) = data (cells (set_data h (ws ! i) (ss ! i)) a)"
      proof (cases "a = ws ! i")
        case True
        with write_all_nth[OF dw, of ss i h] ls lw i show ?thesis
          by (simp add: h1_def set_data_cells)
      next
        case False
        have "a \<notin> set ws"
        proof
          assume "a \<in> set ws"
          then obtain j where j: "j < length ws" "ws ! j = a" by (auto simp add: in_set_conv_nth)
          with False have ne: "i \<noteq> j" by auto
          from j weights_nth(2)[OF ws, of j] lw lf have "a \<in> set (addrs (?pfs ! j))" by simp
          moreover have "set (addrs (?pfs ! i)) \<inter> set (addrs (?pfs ! j)) = {}"
            using disjoint_mods_nth[OF dpf, of i j] i j lw lf ne by simp
          ultimately show False using a by auto
        qed
        then have "a \<notin> fst ` set (zip ws ss)" by (auto dest: set_zip_leftD)
        with False show ?thesis unfolding h1_def by (simp add: write_all_other set_data_cells)
      qed
    qed
    show ?thesis unfolding member_with_prior_def c1 c2 by (rule refl)
  qed
  have "outputs_with_priors (zip ?ens ?pfs) x h1 =
          sequence (map (\<lambda>i. member_with_prior (?ens ! i) (?pfs ! i) (ws ! i) (ss ! i) x h) [0..<?n])"
  proof -
    have "map (\<lambda>(m, p). case call m x h1 of
                              Inl e \<Rightarrow> Inl e
                            | Inr u \<Rightarrow> (case call p x h1 of Inl e \<Rightarrow> Inl e | Inr v \<Rightarrow> tadd u v))
            (zip ?ens ?pfs) =
          map (\<lambda>i. member_with_prior (?ens ! i) (?pfs ! i) (ws ! i) (ss ! i) x h) [0..<?n]"
      using lf step by (simp add: zip_as_indices cong: map_cong)
    then show ?thesis unfolding outputs_with_priors_sequence by simp
  qed
  with ne rs show ?thesis
    by (simp add: forward_def h1_def split: sum.splits)
qed

lemma fsum_Fin: "fsum (map Fin rs) = Fin (sum_list rs)"
  by (induction rs) (simp_all add: fsum_def)

lemma mean_of_Fin: "rs \<noteq> [] \<Longrightarrow> mean_of (map Fin rs) = Fin (sum_list rs / real (length rs))"
  by (simp add: mean_of_def fsum_Fin)

lemma var_of_Fin:
  assumes "2 \<le> length rs"
  shows "var_of True (map Fin rs) =
           Fin ((\<Sum>r\<leftarrow>rs. (r - sum_list rs / real (length rs)) ^ 2) / real (length rs - 1))"
proof -
  from assms have ne: "rs \<noteq> []" by auto
  define mu where "mu = sum_list rs / real (length rs)"
  have "map (\<lambda>x. fmul (fsub x (Fin mu)) (fsub x (Fin mu))) (map Fin rs) =
        map Fin (map (\<lambda>r. (r - mu) ^ 2) rs)"
    by (simp add: power2_eq_square)
  then have "fsum (map (\<lambda>x. fmul (fsub x (Fin mu)) (fsub x (Fin mu))) (map Fin rs)) =
             Fin (\<Sum>r\<leftarrow>rs. (r - mu) ^ 2)"
    by (simp only: fsum_Fin)
  with assms ne show ?thesis
    by (simp add: var_of_def Let_def mean_of_Fin mu_def del: map_map)
qed

lemma var_of_single: "var_of True [v] = NaN"
  by (cases v) (simp_all add: var_of_def mean_of_def fsum_def)

lemma var_of_biased_single: "var_of False [Fin r] = Fin 0"
  by (simp add: var_of_def mean_of_def fsum_def)

lemma concat_uniform_nth:
  "(\<forall>y \<in> set ys. length (f y) = n) \<Longrightarrow> i < length ys \<Longrightarrow> j < n \<Longrightarrow>
     concat (map f ys) ! (i * n + j) = f (ys ! i) ! j"
proof (induction ys arbitrary: i)
  case Nil
  then show ?case by simp
next
  case (Cons y ys)
  show ?case
  proof (cases i)
    case 0
    with Cons.prems show ?thesis by (simp add: nth_append)
  next
    case (Suc i')
    with Cons.prems have "concat (map f ys) ! (i' * n + j) = f (ys ! i') ! j"
      by (intro Cons.IH) auto
    moreover have "length (f y) = n" using Cons.prems by simp
    ultimately show ?thesis using Suc by (simp add: nth_append)
  qed
qed

lemma stack_uniform:
  assumes "ys \<noteq> []" and "\<forall>y \<in> set ys. shape y = s"
  shows "stack ys = Inr \<lparr>shape = length ys # s, elems = concat (map elems ys)\<rparr>"
  using assms by (cases ys) (auto simp add: stack_def list_all_iff)

lemma reduce0_stacked:
  assumes "\<forall>y \<in> set ys. length (elems y) = prod_list s"
  shows "reduce0 f \<lparr>shape = length ys # s, elems = concat (map elems ys)\<rparr> =
           \<lparr>shape = s, elems = map (\<lambda>j. f (map (\<lambda>y. elems y ! j) ys)) [0..<prod_list s]\<rparr>"
proof -
  let ?t = "\<lparr>shape = length ys # s, elems = concat (map elems ys)\<rparr>"
  have col: "column ?t j = map (\<lambda>y. elems y ! j) ys" if "j < prod_list s" for j
  proof (rule nth_equalityI)
    show "length (column ?t j) = length (map (\<lambda>y. elems y ! j) ys)"
      by (simp add: column_def lead_def)
  next
    fix i assume "i < length (column ?t j)"
    then have i: "i < length ys" by (simp add: column_def lead_def)
    with concat_uniform_nth[of ys elems "prod_list s" i j] assms that
    show "column ?t j ! i = map (\<lambda>y. elems y ! j) ys ! i"
      by (simp add: column_def lead_def rest_def)
  qed
  then show ?thesis by (simp add: reduce0_def rest_def cong: map_cong)
qed

lemma stack_mean_entries:
  assumes "ys \<noteq> []" and "\<forall>y \<in> set ys. shape y = s \<and> length (elems y) = prod_list s"
  shows "stack_mean ys =
           Inr \<lparr>shape = s, elems = map (\<lambda>j. mean_of (map (\<lambda>y. elems y ! j) ys)) [0..<prod_list s]\<rparr>"
  using assms by (simp add: stack_mean_def stack_uniform[of ys s] mean0_def reduce0_stacked)

lemma stack_var_entries:
  assumes "ys \<noteq> []" and "\<forall>y \<in> set ys. shape y = s \<and> length (elems y) = prod_list s"
  shows "map_sum id (var0 u) (stack ys) =
           Inr \<lparr>shape = s, elems = map (\<lambda>j. var_of u (map (\<lambda>y. elems y ! j) ys)) [0..<prod_list s]\<rparr>"
  using assms by (simp add: stack_uniform[of ys s] var0_def reduce0_stacked)

lemma var0_single:
  "var0 True \<lparr>shape = [1] @ shape y, elems = elems y\<rparr> =
     \<lparr>shape = shape y, elems = replicate (prod_list (shape y)) NaN\<rparr>"
  by (simp add: var0_def reduce0_def rest_def column_def lead_def var_of_single map_replicate_const)

lemma select_select:
  assumes "shape v = [n, k]" and "length (elems v) = n * k" and "0 < n" and "0 \<le> a" and "a < int k"
  shows "(case select v 0 of Inl e \<Rightarrow> Inl e | Inr row \<Rightarrow> select row a) =
           Inr \<lparr>shape = [], elems = [elems v ! nat a]\<rparr>"
proof -
  have 1: "select v 0 = Inr \<lparr>shape = [k], elems = take k (elems v)\<rparr>"
    using assms by (simp add: select_def getitem_def)
  have "nat a < k" using assms by simp
  moreover have "k \<le> length (elems v)" using assms by simp
  ultimately have "take (Suc 0) (drop (nat a) (take k (elems v))) = [elems v ! nat a]"
    by (simp add: take_Suc_conv_app_nth drop_take)
  then show ?thesis using assms 1 by (simp add: select_def getitem_def)
qed

lemma only_resampled_refl: "only_resampled self h h"
  by (simp add: only_resampled_def)

lemma only_resampled_trans:
  assumes "only_resampled self h h'" and "only_resampled self h' h''"
  shows "only_resampled self h h''"
  unfolding only_resampled_def
proof
  fix c
  let ?P = "\<lambda>u v. \<exists>i < length (prior_fns self). \<exists>gi.
             getattr (prior_fns self ! i) ''weight'' = Inr c \<and>
             cells v c = (cells u c)\<lparr>data := fst (sample (priors self ! i) gi)\<rparr>"
  from assms(1) have 1: "cells h' c = cells h c \<or> ?P h h'" by (simp add: only_resampled_def)
  from assms(2) have 2: "cells h'' c = cells h' c \<or> ?P h' h''" by (simp add: only_resampled_def)
  show "cells h'' c = cells h c \<or> ?P h h''"
  proof (cases "cells h'' c = cells h' c")
    case True
    with 1 show ?thesis by auto
  next
    case False
    with 2 obtain i gi where i: "i < length (prior_fns self)"
      "getattr (prior_fns self ! i) ''weight'' = Inr c"
      "cells h'' c = (cells h' c)\<lparr>data := fst (sample (priors self ! i) gi)\<rparr>" by auto
    from 1 have "cells h'' c = (cells h c)\<lparr>data := fst (sample (priors self ! i) gi)\<rparr>"
    proof
      assume "cells h' c = cells h c"
      with i(3) show ?thesis by simp
    next
      assume "?P h h'"
      then obtain j gj where "cells h' c = (cells h c)\<lparr>data := fst (sample (priors self ! j) gj)\<rparr>"
        by auto
      with i(3) show ?thesis by simp
    qed
    with i(1,2) show ?thesis by auto
  qed
qed

lemma forward_frame:
  assumes wf: "wf self" and fw: "forward self x mid h g = (r, h', g')"
  shows "only_resampled self h h'"
proof (cases mid)
  case None
  show ?thesis
  proof (cases "priors self = []")
    case True
    with forward_all_plain[OF True, of x h g] fw None show ?thesis
      by (simp add: only_resampled_refl)
  next
    case False
    from wf obtain ws where ws: "map (\<lambda>p. getattr p ''weight'') (prior_fns self) = map Inr ws"
      by (rule wf_weights)
    define ss where "ss = fst (draw_each (priors self) g)"
    from wf False have lp: "length (priors self) = length (prior_fns self)"
      and dis: "disjoint_mods (ensemble self @ prior_fns self)" by (auto simp add: wf_def)
    have lw: "length ws = length (prior_fns self)" using ws by (metis length_map)
    have ls: "length ss = length ws" using lp lw by (simp add: ss_def draw_each_length)
    have dw: "distinct ws"
      using weights_distinct[OF _ ws] dis by (simp add: disjoint_mods_append)
    from forward_all_priors[OF wf False ws, of x h g] fw None
    have h': "h' = write_all (zip ws ss) h" by (simp add: ss_def)
    show ?thesis unfolding only_resampled_def
    proof
      fix c
      show "cells h' c = cells h c \<or>
            (\<exists>i < length (prior_fns self). \<exists>gi.
               getattr (prior_fns self ! i) ''weight'' = Inr c \<and>
               cells h' c = (cells h c)\<lparr>data := fst (sample (priors self ! i) gi)\<rparr>)"
      proof (cases "c \<in> set ws")
        case False
        then have "c \<notin> fst ` set (zip ws ss)" by (auto dest: set_zip_leftD)
        then show ?thesis unfolding h' by (simp add: write_all_other)
      next
        case True
        then obtain i where i: "i < length ws" "ws ! i = c" by (auto simp add: in_set_conv_nth)
        from write_all_nth[OF dw ls i(1), of h] i(2)
        have 1: "cells h' c = (cells h c)\<lparr>data := ss ! i\<rparr>" by (simp add: h')
        from draw_each_nth[of i "priors self" g] i(1) lw lp
        obtain gi where 2: "ss ! i = fst (sample (priors self ! i) gi)" by (auto simp add: ss_def)
        from weights_nth(1)[OF ws, of i] i lw
        have 3: "getattr (prior_fns self ! i) ''weight'' = Inr c" by simp
        from 1 2 3 i(1) lw show ?thesis by auto
      qed
    qed
  qed
next
  case (Some i)
  let ?n = "length (ensemble self)"
  show ?thesis
  proof (cases "- int ?n \<le> i \<and> i < int ?n")
    case False
    then have "getitem (ensemble self) i = Inl IndexError"
      by (intro getitem_outside) auto
    with fw Some show ?thesis by (simp add: forward_def only_resampled_refl)
  next
    case True
    then have lo: "- int ?n \<le> i" and hi: "i < int ?n" by simp_all
    define k where "k = norm_index ?n i"
    have k: "k < ?n" unfolding k_def by (rule norm_index_less[OF lo hi])
    show ?thesis
    proof (cases "priors self = []")
      case True
      from forward_member_wf(1)[OF wf lo hi True, of x h g] fw Some show ?thesis
        by (simp add: only_resampled_refl)
    next
      case False
      with wf have lf: "length (prior_fns self) = ?n" by (auto simp add: wf_def)
      from wf obtain ws where ws: "map (\<lambda>p. getattr p ''weight'') (prior_fns self) = map Inr ws"
        by (rule wf_weights)
      from weights_nth(1)[OF ws, of k] k lf
      have a: "getattr (prior_fns self ! k) ''weight'' = Inr (ws ! k)" by simp
      from forward_member_wf(2)[OF wf lo hi False, of "ws ! k" x h g] a fw Some
      have "h' = h \<or> h' = set_data h (ws ! k) (fst (sample (priors self ! k) g))"
        by (auto simp add: k_def split: if_splits)
      then show ?thesis
      proof
        assume "h' = h"
        then show ?thesis by (simp add: only_resampled_refl)
      next
        assume h': "h' = set_data h (ws ! k) (fst (sample (priors self ! k) g))"
        show ?thesis unfolding only_resampled_def
        proof
          fix c
          show "cells h' c = cells h c \<or>
            (\<exists>i < length (prior_fns self). \<exists>gi.
               getattr (prior_fns self ! i) ''weight'' = Inr c \<and>
               cells h' c = (cells h c)\<lparr>data := fst (sample (priors self ! i) gi)\<rparr>)"
          proof (cases "c = ws ! k")
            case False
            then show ?thesis by (simp add: h' set_data_cells)
          next
            case True
            with a k lf h' show ?thesis by (auto simp add: set_data_cells)
          qed
        qed
      qed
    qed
  qed
qed

lemma run_frame:
  assumes "wf self"
  shows "only_resampled self (fst s) (fst (run self ops s))"
proof (induction ops arbitrary: s)
  case Nil
  show ?case by (simp add: run_def only_resampled_refl)
next
  case (Cons op ops)
  obtain h g where s: "s = (h, g)" by (cases s)
  have 1: "only_resampled self h (fst (step self op (h, g)))"
  proof (cases op)
    case (Forward x mid)
    obtain r h' g' where f: "forward self x mid h g = (r, h', g')"
      by (cases "forward self x mid h g")
    from forward_frame[OF assms f] f Forward show ?thesis by simp
  next
    case (Var x action)
    then show ?thesis by (simp add: only_resampled_refl)
  qed
  have 2: "only_resampled self (fst (step self op (h, g))) (fst (run self ops (step self op (h, g))))"
    by (rule Cons.IH)
  from only_resampled_trans[OF 1 2] s show ?case by (simp add: run_def)
qed

lemmas eval_defs =
  heap0_def rng0_def x0_def x1_def LinearEstimator_def NonLinearEstimator_def Linear_def nn_Linear_def
  alloc_def linear_reset_def default_fill_def normal_fill_def set_data_def set_requires_grad_def
  reset_parameters_def addrs_def LinearEstimator_reset_def NonLinearEstimator_reset_def Linear_reset_def
  Let_def init_def deepcopy_def module_parameters_def forward_def var_def parameters_def len_def iter_def
  call_def getitem_def LinearEstimator_forward_def NonLinearEstimator_forward_def Linear_forward_def
  view_rows_def linear_def relu_def stack_mean_def stack_def mean0_def reduce0_def column_def lead_def
  rest_def mean_of_def var_of_def var0_def fsum_def select_def getattr_def fan_in_def sample_def tadd_def
  full_like_def numeral_2_eq_2 numeral_3_eq_3 upt_rec

lemma init_result:
  "\<not> isl (fst (init p B b h g)) \<Longrightarrow>
     init p B b h g =
       (Inr (projr (fst (init p B b h g))), fst (snd (init p B b h g)), snd (snd (init p B b h g)))"
  by (cases "init p B b h g") (auto simp add: isl_def)

lemma plain_init_ok:
  "init (fst plain_proto) 3 0 (fst (snd plain_proto)) (snd (snd plain_proto)) =
     (Inr plain_self, plain_heap, plain_rng)"
  unfolding plain_self_def plain_heap_def plain_rng_def plain_init_def
  by (rule init_result) (simp add: init_def split_def Let_def)

lemma plain_len: "len plain_self = 3"
  by (simp add: plain_self_def plain_init_def plain_proto_def eval_defs)

section \<open>The claims\<close>

text \<open>
  C4, as amended. \<^verbatim>\<open>forward(x, mid)\<close> raises \<^verbatim>\<open>IndexError\<close>, and changes neither the store nor
  the generator, for every \<open>mid\<close> outside \<open>[-B, B)\<close>, \<open>B\<close> the length of the ensemble: for
  \<open>mid \<ge> B\<close> and for \<open>mid < -B\<close>. The member is looked up by Python list indexing, so the
  indices in \<open>[-B, 0)\<close> are accepted.
\<close>

theorem forward_index_out_of_range:
  "mid < - len self \<or> len self \<le> mid \<Longrightarrow> forward self x (Some mid) h g = (Inl IndexError, h, g)"
proof -
  assume "mid < - len self \<or> len self \<le> mid"
  then have "getitem (ensemble self) mid = Inl IndexError"
    by (intro getitem_outside) (simp add: len_def)
  then show ?thesis by (simp add: forward_def)
qed

text \<open>The scenario of the specification: \<open>mid = 5\<close> on an ensemble of three members.\<close>

theorem forward_index_out_of_range_witness:
  "((5::int) < - len plain_self \<or> len plain_self \<le> 5) \<and>
   forward plain_self x0 (Some 5) plain_heap plain_rng = (Inl IndexError, plain_heap, plain_rng)"
  using forward_index_out_of_range[of 5 plain_self x0 plain_heap plain_rng]
  by (simp add: plain_len)

text \<open>
  C4 as stated fails: \<open>mid = -1\<close> lies outside \<open>[0, 3)\<close>, and on an ensemble of three
  members it returns the prediction of the last member.
\<close>

theorem forward_negative_index_counterexample:
  "\<not> (0 \<le> (- 1 :: int) \<and> (- 1 :: int) < 3) \<and> len plain_self = 3 \<and>
   fst (forward plain_self x0 (Some (- 1)) plain_heap plain_rng) =
     Inr \<lparr>shape = [1, 2], elems = [Fin 5, Fin (53 / 10)]\<rparr>"
  by (simp add: plain_self_def plain_heap_def plain_rng_def plain_init_def plain_proto_def eval_defs)


lemma priors_init_ok:
  "init (fst priors_proto) 2 1 (fst (snd priors_proto)) (snd (snd priors_proto)) =
     (Inr priors_self, priors_heap, priors_rng)"
  unfolding priors_self_def priors_heap_def priors_rng_def priors_init_def
  by (rule init_result) (simp add: priors_proto_def eval_defs)

lemmas priors_defs = priors_self_def priors_heap_def priors_rng_def priors_init_def priors_proto_def

lemmas plain_defs = plain_self_def plain_heap_def plain_rng_def plain_init_def plain_proto_def

lemma init_index:
  assumes "init proto B b h0 g0 = (Inr self, h1, g1)" and "0 \<le> mid" and "mid < B"
  shows "- int (length (ensemble self)) \<le> mid" and "mid < int (length (ensemble self))"
    and "norm_index (length (ensemble self)) mid = nat mid"
  using assms init_ensemble(1)[OF assms(1)] by (simp_all add: norm_index_def)

lemma init_index_negative:
  assumes "init proto B b h0 g0 = (Inr self, h1, g1)" and "- B \<le> mid" and "mid < 0"
  shows "- int (length (ensemble self)) \<le> mid" and "mid < int (length (ensemble self))"
    and "norm_index (length (ensemble self)) mid = nat (B + mid)"
  using assms init_ensemble(1)[OF assms(1)] by (simp_all add: norm_index_def)

lemma forward_member_constructed:
  assumes init: "init proto B b h0 g0 = (Inr self, h1, g1)"
    and lo: "- int (length (ensemble self)) \<le> mid" and hi: "mid < int (length (ensemble self))"
  defines "k \<equiv> norm_index (length (ensemble self)) mid"
  shows "(b = 0 \<longrightarrow> forward self x (Some mid) h g = (call (ensemble self ! k) x h, h, g)) \<and>
     (b \<noteq> 0 \<longrightarrow>
        (\<exists>a. getattr (prior_fns self ! k) ''weight'' = Inr a \<and>
           forward self x (Some mid) h g =
             (member_with_prior (ensemble self ! k) (prior_fns self ! k) a
                (fst (sample (priors self ! k) g)) x h,
              if isl (call (ensemble self ! k) x h) then (h, g)
              else (set_data h a (fst (sample (priors self ! k) g)),
                    snd (sample (priors self ! k) g)))))"
proof (intro conjI impI)
  note wf = init_wf[OF init]
  {
    assume "b = 0"
    with init have "priors self = []" by (simp add: init_without_priors)
    from forward_member_wf(1)[OF wf lo hi this]
    show "forward self x (Some mid) h g = (call (ensemble self ! k) x h, h, g)"
      by (simp add: k_def)
  next
    assume b: "b \<noteq> 0"
    note P = init_with_priors[OF init b]
    have k: "k < nat B"
      using norm_index_less[OF lo hi] init_ensemble(1)[OF init] by (simp add: k_def)
    with P(2) have ne: "priors self \<noteq> []" by auto
    from P(3) k obtain a where a: "getattr (prior_fns self ! k) ''weight'' = Inr a" by blast
    from forward_member_wf(2)[OF wf lo hi ne, of a x h g] a
    show "\<exists>a. getattr (prior_fns self ! k) ''weight'' = Inr a \<and>
           forward self x (Some mid) h g =
             (member_with_prior (ensemble self ! k) (prior_fns self ! k) a
                (fst (sample (priors self ! k) g)) x h,
              if isl (call (ensemble self ! k) x h) then (h, g)
              else (set_data h a (fst (sample (priors self ! k) g)),
                    snd (sample (priors self ! k) g)))"
      by (auto simp add: k_def)
  }
qed

text \<open>
  C2. For an ensemble built by the constructor and \<open>0 \<le> mid < B\<close>, \<^verbatim>\<open>forward(x, mid)\<close>
  is the prediction of member \<open>mid\<close> when \<open>beta = 0\<close>, with the store and the generator
  untouched. When \<open>beta > 0\<close> it is that prediction plus the prediction of prior function
  \<open>mid\<close>, computed after the weight of the prior function was overwritten with a sample
  drawn from distribution \<open>mid\<close> at the current state of the generator; the store and the
  generator then carry the sample and the advanced position (unless the member itself
  raised, which happens before anything is drawn). Exceptions of the estimators and of
  the addition propagate.
\<close>

theorem forward_member:
  assumes "init proto B b h0 g0 = (Inr self, h1, g1)" and "0 \<le> mid" and "mid < B"
  shows "(b = 0 \<longrightarrow>
            forward self x (Some mid) h g = (call (ensemble self ! nat mid) x h, h, g)) \<and>
         (0 < b \<longrightarrow>
            (\<exists>a. getattr (prior_fns self ! nat mid) ''weight'' = Inr a \<and>
               forward self x (Some mid) h g =
                 (member_with_prior (ensemble self ! nat mid) (prior_fns self ! nat mid) a
                    (fst (sample (priors self ! nat mid) g)) x h,
                  if isl (call (ensemble self ! nat mid) x h) then (h, g)
                  else (set_data h a (fst (sample (priors self ! nat mid) g)),
                        snd (sample (priors self ! nat mid) g)))))"
  using forward_member_constructed[OF assms(1) init_index(1,2)[OF assms], of x h g]
  unfolding init_index(3)[OF assms] by auto


lemma priors_self_value:
  "priors_self =
     \<lparr>ensemble =
        [\<lparr>ident = 1, params = [(''weight'', 2), (''bias'', 3)],
          forward_fn = Linear_forward, reset_fn = Linear_reset\<rparr>,
         \<lparr>ident = 2, params = [(''weight'', 4), (''bias'', 5)],
          forward_fn = Linear_forward, reset_fn = Linear_reset\<rparr>],
      bno = 2, beta = 1,
      prior_fns =
        [\<lparr>ident = 3, params = [(''weight'', 6), (''bias'', 7)],
          forward_fn = Linear_forward, reset_fn = Linear_reset\<rparr>,
         \<lparr>ident = 4, params = [(''weight'', 8), (''bias'', 9)],
          forward_fn = Linear_forward, reset_fn = Linear_reset\<rparr>],
      priors =
        [\<lparr>loc = \<lparr>shape = [1, 1], elems = [Fin (1 / 2)]\<rparr>,
          scale = \<lparr>shape = [1, 1], elems = [Fin (1 / 10)]\<rparr>\<rparr>,
         \<lparr>loc = \<lparr>shape = [1, 1], elems = [Fin 1]\<rparr>,
          scale = \<lparr>shape = [1, 1], elems = [Fin (1 / 10)]\<rparr>\<rparr>]\<rparr>"
  by (simp add: priors_defs eval_defs)


lemma priors_heap_cells:
  "cells priors_heap 2 = \<lparr>data = \<lparr>shape = [1, 1], elems = [Fin (1 / 2)]\<rparr>, requires_grad = True\<rparr>"
  "cells priors_heap 3 = \<lparr>data = \<lparr>shape = [1], elems = [Fin (3 / 4)]\<rparr>, requires_grad = True\<rparr>"
  "cells priors_heap 4 = \<lparr>data = \<lparr>shape = [1, 1], elems = [Fin 1]\<rparr>, requires_grad = True\<rparr>"
  "cells priors_heap 5 = \<lparr>data = \<lparr>shape = [1], elems = [Fin (5 / 4)]\<rparr>, requires_grad = True\<rparr>"
  "cells priors_heap 6 = \<lparr>data = \<lparr>shape = [1, 1], elems = [Fin (1 / 2)]\<rparr>, requires_grad = False\<rparr>"
  "cells priors_heap 7 = \<lparr>data = \<lparr>shape = [1], elems = [Fin (3 / 4)]\<rparr>, requires_grad = True\<rparr>"
  "cells priors_heap 8 = \<lparr>data = \<lparr>shape = [1, 1], elems = [Fin 1]\<rparr>, requires_grad = False\<rparr>"
  "cells priors_heap 9 = \<lparr>data = \<lparr>shape = [1], elems = [Fin (5 / 4)]\<rparr>, requires_grad = True\<rparr>"
  by (simp_all add: priors_defs eval_defs)

lemma priors_rng_value:
  "priors_rng = \<lparr>normal_seq = (\<lambda>n. real n), linear_init_seq = (\<lambda>k n. real n / 4), pos = 6\<rparr>"
  by (simp add: priors_defs eval_defs)

lemmas priors_values = priors_self_value priors_heap_cells priors_rng_value

text \<open>
  An ensemble of two linear layers with \<open>beta = 1\<close>, queried at \<open>mid = 1\<close>: the member
  predicts \<open>13/4\<close>, the sample for the weight of the prior function is \<open>8/5\<close>, and the
  call returns \<open>77/10\<close>.
\<close>

theorem forward_member_witness:
  "init (fst priors_proto) 2 1 (fst (snd priors_proto)) (snd (snd priors_proto)) =
     (Inr priors_self, priors_heap, priors_rng) \<and>
   getattr (prior_fns priors_self ! 1) ''weight'' = Inr 8 \<and>
   fst (forward priors_self x1 (Some 1) priors_heap priors_rng) =
     member_with_prior (ensemble priors_self ! 1) (prior_fns priors_self ! 1) 8
       (fst (sample (priors priors_self ! 1) priors_rng)) x1 priors_heap \<and>
   call (ensemble priors_self ! 1) x1 priors_heap = Inr \<lparr>shape = [1, 1], elems = [Fin (13 / 4)]\<rparr> \<and>
   fst (sample (priors priors_self ! 1) priors_rng) = \<lparr>shape = [1, 1], elems = [Fin (8 / 5)]\<rparr> \<and>
   fst (forward priors_self x1 (Some 1) priors_heap priors_rng) =
     Inr \<lparr>shape = [1, 1], elems = [Fin (77 / 10)]\<rparr>"
proof -
  have g: "getattr (prior_fns priors_self ! 1) ''weight'' = Inr 8"
    by (simp add: priors_values eval_defs)
  have c: "call (ensemble priors_self ! 1) x1 priors_heap = Inr \<lparr>shape = [1, 1], elems = [Fin (13 / 4)]\<rparr>"
    by (simp add: priors_values eval_defs)
  have s: "fst (sample (priors priors_self ! 1) priors_rng) = \<lparr>shape = [1, 1], elems = [Fin (8 / 5)]\<rparr>"
    by (simp add: priors_values eval_defs)
  have v: "fst (forward priors_self x1 (Some 1) priors_heap priors_rng) =
     Inr \<lparr>shape = [1, 1], elems = [Fin (77 / 10)]\<rparr>"
    by (simp add: priors_values eval_defs)
  from forward_member[OF priors_init_ok, of 1 x1 priors_heap priors_rng] g
  have "fst (forward priors_self x1 (Some 1) priors_heap priors_rng) =
     member_with_prior (ensemble priors_self ! 1) (prior_fns priors_self ! 1) 8
       (fst (sample (priors priors_self ! 1) priors_rng)) x1 priors_heap"
    by auto
  with priors_init_ok g c s v show ?thesis by simp
qed

text \<open>
  C8. For an ensemble built by the constructor and \<open>-B \<le> mid < 0\<close>, \<^verbatim>\<open>forward(x, mid)\<close> does
  exactly what \<^verbatim>\<open>forward(x, B + mid)\<close> does: the list lookups wrap the negative index, no
  \<^verbatim>\<open>IndexError\<close> is raised by them, and the result is the prediction of member
  \<open>B + mid\<close>, plus that of the resampled prior function \<open>B + mid\<close> when \<open>beta > 0\<close>.
\<close>

theorem forward_negative_index:
  assumes "init proto B b h0 g0 = (Inr self, h1, g1)" and "- B \<le> mid" and "mid < 0"
  shows "forward self x (Some mid) h g = forward self x (Some (B + mid)) h g \<and>
         (b = 0 \<longrightarrow>
            forward self x (Some mid) h g = (call (ensemble self ! nat (B + mid)) x h, h, g)) \<and>
         (0 < b \<longrightarrow>
            (\<exists>a. getattr (prior_fns self ! nat (B + mid)) ''weight'' = Inr a \<and>
               forward self x (Some mid) h g =
                 (member_with_prior (ensemble self ! nat (B + mid)) (prior_fns self ! nat (B + mid)) a
                    (fst (sample (priors self ! nat (B + mid)) g)) x h,
                  if isl (call (ensemble self ! nat (B + mid)) x h) then (h, g)
                  else (set_data h a (fst (sample (priors self ! nat (B + mid)) g)),
                        snd (sample (priors self ! nat (B + mid)) g)))))"
proof -
  have p: "0 \<le> B + mid" "B + mid < B" using assms(2,3) by simp_all
  note neg = forward_member_constructed[OF assms(1) init_index_negative(1,2)[OF assms], of x h g]
  note pos = forward_member_constructed[OF assms(1) init_index(1,2)[OF assms(1) p], of x h g]
  have same: "forward self x (Some mid) h g = forward self x (Some (B + mid)) h g"
  proof (cases "b = 0")
    case True
    with neg pos show ?thesis
      unfolding init_index_negative(3)[OF assms] init_index(3)[OF assms(1) p] by simp
  next
    case False
    with neg pos show ?thesis
      unfolding init_index_negative(3)[OF assms] init_index(3)[OF assms(1) p] by auto
  qed
  from neg have rest: "(b = 0 \<longrightarrow>
            forward self x (Some mid) h g = (call (ensemble self ! nat (B + mid)) x h, h, g)) \<and>
         (0 < b \<longrightarrow>
            (\<exists>a. getattr (prior_fns self ! nat (B + mid)) ''weight'' = Inr a \<and>
               forward self x (Some mid) h g =
                 (member_with_prior (ensemble self ! nat (B + mid)) (prior_fns self ! nat (B + mid)) a
                    (fst (sample (priors self ! nat (B + mid)) g)) x h,
                  if isl (call (ensemble self ! nat (B + mid)) x h) then (h, g)
                  else (set_data h a (fst (sample (priors self ! nat (B + mid)) g)),
                        snd (sample (priors self ! nat (B + mid)) g)))))"
    unfolding init_index_negative(3)[OF assms] by auto
  from same rest show ?thesis by blast
qed

text \<open>
  The ensemble of three members without priors at \<open>mid = -1\<close>: the call returns what
  member \<open>2\<close> predicts, as \<open>mid = 2\<close> does.
\<close>

theorem forward_negative_index_witness:
  "init (fst plain_proto) 3 0 (fst (snd plain_proto)) (snd (snd plain_proto)) =
     (Inr plain_self, plain_heap, plain_rng) \<and>
   forward plain_self x0 (Some (- 1)) plain_heap plain_rng =
     forward plain_self x0 (Some 2) plain_heap plain_rng \<and>
   forward plain_self x0 (Some (- 1)) plain_heap plain_rng =
     (call (ensemble plain_self ! 2) x0 plain_heap, plain_heap, plain_rng) \<and>
   call (ensemble plain_self ! 2) x0 plain_heap =
     Inr \<lparr>shape = [1, 2], elems = [Fin 5, Fin (53 / 10)]\<rparr>"
proof -
  have c: "call (ensemble plain_self ! 2) x0 plain_heap =
     Inr \<lparr>shape = [1, 2], elems = [Fin 5, Fin (53 / 10)]\<rparr>"
    by (simp add: plain_defs eval_defs)
  have hyps: "- 3 \<le> (- 1 :: int)" "(- 1 :: int) < 0" by simp_all
  have n: "(3::int) + - 1 = 2" "nat 2 = 2" by simp_all
  note t = forward_negative_index[OF plain_init_ok hyps, of x0 plain_heap plain_rng, unfolded n]
  from t have 1: "forward plain_self x0 (Some (- 1)) plain_heap plain_rng =
          forward plain_self x0 (Some 2) plain_heap plain_rng"
    by (rule conjunct1)
  from t have 2: "forward plain_self x0 (Some (- 1)) plain_heap plain_rng =
          (call (ensemble plain_self ! 2) x0 plain_heap, plain_heap, plain_rng)"
    by blast
  from plain_init_ok 1 2 c show ?thesis by blast
qed

end
